theory Spec2Isabelle
  imports
    Complex_Main
    "HOL-Library.Multiset"
    "HOL-Library.Char_ord"
    "HOL-Library.List_Lexorder"
    "HOL-Library.Product_Lexorder"
begin

section \<open>Strings\<close>

text \<open>
  Python strings are modelled as \<^typ>\<open>string\<close>. The model is the code on ASCII text:
  there \<open>str.lower\<close> and \<open>str.upper\<close> change the 26 letters only, \<open>\w\<close> is a letter, a
  digit or the underscore, \<open>\d\<close> is a digit, and \<open>\s\<close> (as \<open>str.strip\<close>) takes the
  characters 9 to 13, 28 to 32.
\<close>

definition is_ascii :: "char \<Rightarrow> bool" where
  "is_ascii c = ((of_char c :: nat) < 128)"

definition is_upper :: "char \<Rightarrow> bool" where
  "is_upper c = (65 \<le> (of_char c :: nat) \<and> (of_char c :: nat) \<le> 90)"

definition is_lower :: "char \<Rightarrow> bool" where
  "is_lower c = (97 \<le> (of_char c :: nat) \<and> (of_char c :: nat) \<le> 122)"

definition is_digit :: "char \<Rightarrow> bool" where
  "is_digit c = (48 \<le> (of_char c :: nat) \<and> (of_char c :: nat) \<le> 57)"

definition is_space :: "char \<Rightarrow> bool" where
  "is_space c = ((9 \<le> (of_char c :: nat) \<and> (of_char c :: nat) \<le> 13)
                 \<or> (28 \<le> (of_char c :: nat) \<and> (of_char c :: nat) \<le> 32))"

definition is_word :: "char \<Rightarrow> bool" where
  "is_word c = (is_upper c \<or> is_lower c \<or> is_digit c \<or> c = CHR ''_'')"

definition lower_char :: "char \<Rightarrow> char" where
  "lower_char c = (if is_upper c then char_of ((of_char c :: nat) + 32) else c)"

definition upper_char :: "char \<Rightarrow> char" where
  "upper_char c = (if is_lower c then char_of ((of_char c :: nat) - 32) else c)"

definition py_lower :: "string \<Rightarrow> string" where
  "py_lower s = map lower_char s"

definition py_upper :: "string \<Rightarrow> string" where
  "py_upper s = map upper_char s"

text \<open>\<open>s.startswith(p)\<close>.\<close>

fun startswith :: "string \<Rightarrow> string \<Rightarrow> bool" where
  "startswith s [] = True"
| "startswith [] (p # ps) = False"
| "startswith (c # cs) (p # ps) = (c = p \<and> startswith cs ps)"

text \<open>\<open>p in s\<close>: \<open>p\<close> occurs in \<open>s\<close> as a contiguous block.\<close>

fun py_in :: "string \<Rightarrow> string \<Rightarrow> bool" where
  "py_in p [] = (p = [])"
| "py_in p (c # cs) = (startswith (c # cs) p \<or> py_in p cs)"

section \<open>Retry manager: failure classification\<close>

datatype RetryReason =
  NETWORK_ERROR | TIMEOUT | SERVER_ERROR | RATE_LIMITED | INDEXER_DOWN
  | FILE_CORRUPTED | DISK_FULL | PERMISSION_ERROR | UNKNOWN

record failure_config =
  patterns :: "string list"
  retry_multiplier :: real
  immediate_retry :: bool

text \<open>\<open>RetryManager._initialize_failure_patterns\<close>: the dictionary, in insertion order.\<close>

definition failure_patterns :: "(RetryReason \<times> failure_config) list" where
  "failure_patterns =
    [(NETWORK_ERROR, \<lparr>patterns = [''connection refused'', ''network unreachable'',
                                    ''dns lookup failed'', ''connection reset''],
                       retry_multiplier = 3 / 2, immediate_retry = False\<rparr>),
     (TIMEOUT, \<lparr>patterns = [''timeout'', ''deadline exceeded'', ''request timeout''],
                 retry_multiplier = 6 / 5, immediate_retry = False\<rparr>),
     (SERVER_ERROR, \<lparr>patterns = [''500'', ''502'', ''503'', ''504'',
                                   ''internal server error'', ''bad gateway''],
                      retry_multiplier = 2, immediate_retry = False\<rparr>),
     (RATE_LIMITED, \<lparr>patterns = [''429'', ''rate limit'', ''too many requests'',
                                   ''quota exceeded''],
                      retry_multiplier = 3, immediate_retry = False\<rparr>),
     (INDEXER_DOWN, \<lparr>patterns = [''indexer unavailable'', ''indexer offline'',
                                   ''indexer maintenance''],
                      retry_multiplier = 5 / 2, immediate_retry = False\<rparr>),
     (FILE_CORRUPTED, \<lparr>patterns = [''checksum mismatch'', ''corrupted file'',
                                     ''invalid file format''],
                        retry_multiplier = 1, immediate_retry = True\<rparr>),
     (DISK_FULL, \<lparr>patterns = [''no space left'', ''disk full'', ''insufficient space''],
                   retry_multiplier = 1, immediate_retry = False\<rparr>),
     (PERMISSION_ERROR, \<lparr>patterns = [''permission denied'', ''access denied'',
                                       ''forbidden''],
                          retry_multiplier = 1, immediate_retry = False\<rparr>)]"

text \<open>The inner loop of \<open>categorize_failure\<close>: does one of the patterns occur?\<close>

fun any_pattern_in :: "string list \<Rightarrow> string \<Rightarrow> bool" where
  "any_pattern_in [] error_lower = False"
| "any_pattern_in (pattern # rest) error_lower =
     (if py_in pattern error_lower then True else any_pattern_in rest error_lower)"

text \<open>The outer loop, with the \<open>return RetryReason.UNKNOWN\<close> that follows it.\<close>

fun categorize_loop :: "(RetryReason \<times> failure_config) list \<Rightarrow> string \<Rightarrow> RetryReason" where
  "categorize_loop [] error_lower = UNKNOWN"
| "categorize_loop ((reason, config) # rest) error_lower =
     (if any_pattern_in (patterns config) error_lower then reason
      else categorize_loop rest error_lower)"

text \<open>\<open>RetryManager.categorize_failure\<close>; \<open>None\<close> is the Python \<open>None\<close>.\<close>

definition categorize_failure :: "string option \<Rightarrow> RetryReason" where
  "categorize_failure error_message =
     (case error_message of
        None \<Rightarrow> UNKNOWN
      | Some m \<Rightarrow> if m = [] then UNKNOWN else categorize_loop failure_patterns (py_lower m))"

text \<open>The substrings configured for any reason.\<close>

definition configured_patterns :: "string list" where
  "configured_patterns = concat (map (\<lambda>(reason, config). patterns config) failure_patterns)"

section \<open>Duplicate detector: the list of matches\<close>

datatype DuplicateType =
  EXACT_MATCH | FUZZY_MATCH | ISBN_MATCH | CONTENT_HASH_MATCH | SIMILAR_TITLE_AUTHOR

datatype MatchConfidence = HIGH | MEDIUM | LOW

text \<open>\<open>MatchConfidence.value\<close>.\<close>

fun confidence_value :: "MatchConfidence \<Rightarrow> string" where
  "confidence_value HIGH = ''high''"
| "confidence_value MEDIUM = ''medium''"
| "confidence_value LOW = ''low''"

record BookRecord =
  book_id :: int
  title :: string

record DuplicateMatch =
  book1 :: BookRecord
  book2 :: BookRecord
  duplicate_type :: DuplicateType
  confidence :: MatchConfidence
  similarity_score :: real

text \<open>\<open>tuple(sorted([match.book1.id, match.book2.id]))\<close>.\<close>

definition canonical_pair :: "DuplicateMatch \<Rightarrow> int \<times> int" where
  "canonical_pair m = (min (book_id (book1 m)) (book_id (book2 m)),
                       max (book_id (book1 m)) (book_id (book2 m)))"

text \<open>The loop of \<open>_deduplicate_matches\<close> over \<open>seen_pairs\<close> and \<open>unique_matches\<close>.\<close>

fun dedup_loop ::
  "DuplicateMatch list \<Rightarrow> (int \<times> int) set \<Rightarrow> DuplicateMatch list \<Rightarrow> DuplicateMatch list" where
  "dedup_loop [] seen_pairs unique_matches = unique_matches"
| "dedup_loop (m # matches) seen_pairs unique_matches =
     (let pair = canonical_pair m in
      if pair \<notin> seen_pairs
      then dedup_loop matches (insert pair seen_pairs) (unique_matches @ [m])
      else dedup_loop matches seen_pairs unique_matches)"

definition deduplicate_matches :: "DuplicateMatch list \<Rightarrow> DuplicateMatch list" where
  "deduplicate_matches matches = dedup_loop matches {} []"

text \<open>
  The four searches of \<open>detect_duplicates\<close> are parameters of the run: each gives, for
  a book and its index, the matches it appends.
\<close>

record finders =
  enable_isbn_matching :: bool
  enable_content_hash_matching :: bool
  find_isbn_duplicates :: "BookRecord \<Rightarrow> DuplicateMatch list"
  find_asin_duplicates :: "BookRecord \<Rightarrow> DuplicateMatch list"
  find_fuzzy_title_author_matches :: "BookRecord \<Rightarrow> nat \<Rightarrow> DuplicateMatch list"
  find_content_hash_duplicates :: "BookRecord \<Rightarrow> nat \<Rightarrow> DuplicateMatch list"

text \<open>One pass of the loop body: what is appended to \<open>duplicates\<close> for \<open>book1\<close> at \<open>i\<close>.\<close>

definition matches_of_book :: "finders \<Rightarrow> nat \<Rightarrow> BookRecord \<Rightarrow> DuplicateMatch list" where
  "matches_of_book f i b =
     (if enable_isbn_matching f then find_isbn_duplicates f b else [])
     @ find_asin_duplicates f b
     @ find_fuzzy_title_author_matches f b i
     @ (if enable_content_hash_matching f then find_content_hash_duplicates f b i else [])"

fun collect_loop ::
  "finders \<Rightarrow> nat \<Rightarrow> BookRecord list \<Rightarrow> DuplicateMatch list \<Rightarrow> DuplicateMatch list" where
  "collect_loop f i [] duplicates = duplicates"
| "collect_loop f i (b # books) duplicates =
     collect_loop f (Suc i) books (duplicates @ matches_of_book f i b)"

text \<open>
  \<open>list.sort(key=..., reverse=True)\<close>: descending by key, equal keys in their first
  order.
\<close>

definition sort_reverse :: "('a \<Rightarrow> 'k::linorder) \<Rightarrow> 'a list \<Rightarrow> 'a list" where
  "sort_reverse k xs = rev (sort_key k (rev xs))"

definition match_sort_key :: "DuplicateMatch \<Rightarrow> string \<times> real" where
  "match_sort_key x = (confidence_value (confidence x), similarity_score x)"

definition detect_duplicates :: "finders \<Rightarrow> BookRecord list \<Rightarrow> DuplicateMatch list" where
  "detect_duplicates f books =
     (let duplicates = collect_loop f 0 books [];
          unique_duplicates = deduplicate_matches duplicates
      in sort_reverse match_sort_key unique_duplicates)"

section \<open>Failover manager: circuit breaker\<close>

text \<open>
  The three values the attribute \<open>state\<close> takes; times are seconds on the clock that
  \<open>datetime.now()\<close> reads.
\<close>

datatype breaker_state = CLOSED | OPEN | HALF_OPEN

record CircuitBreaker =
  failure_threshold :: int
  recovery_timeout :: int
  failure_count :: int
  last_failure_time :: "real option"
  state :: breaker_state

text \<open>\<open>CircuitBreaker.__init__\<close>.\<close>

definition CircuitBreaker_init :: "int \<Rightarrow> int \<Rightarrow> CircuitBreaker" where
  "CircuitBreaker_init threshold timeout =
     \<lparr>failure_threshold = threshold, recovery_timeout = timeout, failure_count = 0,
      last_failure_time = None, state = CLOSED\<rparr>"

text \<open>\<open>CircuitBreaker.call_allowed\<close> at the time \<open>now\<close>: the answer and the breaker after it.\<close>

definition call_allowed :: "real \<Rightarrow> CircuitBreaker \<Rightarrow> bool \<times> CircuitBreaker" where
  "call_allowed now cb =
     (case state cb of
        CLOSED \<Rightarrow> (True, cb)
      | OPEN \<Rightarrow>
          (case last_failure_time cb of
             None \<Rightarrow> (False, cb)
           | Some t \<Rightarrow>
               if now - t > real_of_int (recovery_timeout cb)
               then (True, cb\<lparr>state := HALF_OPEN\<rparr>)
               else (False, cb))
      | HALF_OPEN \<Rightarrow> (True, cb))"

text \<open>\<open>CircuitBreaker.record_success\<close>.\<close>

definition record_success :: "CircuitBreaker \<Rightarrow> CircuitBreaker" where
  "record_success cb = cb\<lparr>failure_count := 0, state := CLOSED\<rparr>"

text \<open>\<open>CircuitBreaker.record_failure\<close> at the time \<open>now\<close>.\<close>

definition record_failure :: "real \<Rightarrow> CircuitBreaker \<Rightarrow> CircuitBreaker" where
  "record_failure now cb =
     (let cb1 = cb\<lparr>failure_count := failure_count cb + 1, last_failure_time := Some now\<rparr>
      in if failure_count cb1 \<ge> failure_threshold cb1 then cb1\<lparr>state := OPEN\<rparr> else cb1)"

text \<open>A history of a breaker: the calls made on it, in order.\<close>

datatype breaker_event = CallAllowed real | RecordSuccess | RecordFailure real

fun breaker_step :: "CircuitBreaker \<Rightarrow> breaker_event \<Rightarrow> CircuitBreaker" where
  "breaker_step cb (CallAllowed now) = snd (call_allowed now cb)"
| "breaker_step cb RecordSuccess = record_success cb"
| "breaker_step cb (RecordFailure now) = record_failure now cb"

definition breaker_after :: "int \<Rightarrow> int \<Rightarrow> breaker_event list \<Rightarrow> CircuitBreaker" where
  "breaker_after threshold timeout events =
     foldl breaker_step (CircuitBreaker_init threshold timeout) events"

text \<open>
  The consecutive recorded failures of a history: the failures recorded since the last
  recorded success.
\<close>

fun is_outcome :: "breaker_event \<Rightarrow> bool" where
  "is_outcome (CallAllowed now) = False"
| "is_outcome RecordSuccess = True"
| "is_outcome (RecordFailure now) = True"

fun is_failure :: "breaker_event \<Rightarrow> bool" where
  "is_failure (RecordFailure now) = True"
| "is_failure ev = False"

definition consecutive_failures :: "breaker_event list \<Rightarrow> nat" where
  "consecutive_failures events = length (takeWhile is_failure (rev (filter is_outcome events)))"

text \<open>The time of the last failure that a history records, if it records one.\<close>

fun failure_times :: "breaker_event list \<Rightarrow> real list" where
  "failure_times [] = []"
| "failure_times (RecordFailure now # events) = now # failure_times events"
| "failure_times (CallAllowed now # events) = failure_times events"
| "failure_times (RecordSuccess # events) = failure_times events"

definition last_failure :: "breaker_event list \<Rightarrow> real option" where
  "last_failure events =
     (if failure_times events = [] then None else Some (last (failure_times events)))"

section \<open>Retry manager: retry delay\<close>

datatype py_error = OverflowError | ZeroDivisionError

record RetryConfig =
  base_delay :: int
  max_delay :: int
  exponential_base :: real
  max_retries :: int
  rate_limit_backoff :: int
  server_error_backoff :: int

text \<open>The defaults of the dataclass, which \<open>RetryManager.__init__\<close> takes.\<close>

definition default_retry_config :: RetryConfig where
  "default_retry_config =
     \<lparr>base_delay = 60, max_delay = 3600, exponential_base = 2, max_retries = 5,
      rate_limit_backoff = 300, server_error_backoff = 900\<rparr>"

text \<open>
  Floats. A double is \<open>m * 2^e\<close> with \<open>|m| < 2^53\<close> and \<open>-1074 \<le> e \<le> 971\<close>. Every
  float operation of the code gives the double nearest to its exact result; \<open>fl\<close>
  stands for that rounding, and \<open>rounds_to_nearest fl\<close> says what the theorems use of
  it: no double is nearer to \<open>x\<close> than \<open>fl x\<close>. (A product beyond the largest double is
  \<open>inf\<close> in the code; here \<open>fl\<close> gives some number at least as large as every double
  below the product, and the minimum with \<open>max_delay\<close> removes either.)
\<close>

definition is_double :: "real \<Rightarrow> bool" where
  "is_double x =
     (\<exists>m e. x = real_of_int m * power_int 2 e \<and> \<bar>m\<bar> < 2 ^ 53 \<and> - 1074 \<le> e \<and> e \<le> 971)"

definition rounds_to_nearest :: "(real \<Rightarrow> real) \<Rightarrow> bool" where
  "rounds_to_nearest fl = (\<forall>x y. is_double y \<longrightarrow> \<bar>fl x - x\<bar> \<le> \<bar>y - x\<bar>)"

text \<open>
  \<open>b ** n\<close> on a float \<open>b\<close> raises where the power has no finite double (from
  \<open>2 ** 1024\<close> on) and on \<open>0.0\<close> to a negative power.
\<close>

definition py_float_pow :: "(real \<Rightarrow> real) \<Rightarrow> real \<Rightarrow> int \<Rightarrow> py_error + real" where
  "py_float_pow fl b n =
     (if b = 0 \<and> n < 0 then Inl ZeroDivisionError
      else if \<bar>power_int b n\<bar> \<ge> 2 ^ 1024 then Inl OverflowError
      else Inr (fl (power_int b n)))"

text \<open>\<open>int(x)\<close> on a float: truncation towards zero.\<close>

definition py_int :: "real \<Rightarrow> int" where
  "py_int x = (if x \<ge> 0 then \<lfloor>x\<rfloor> else \<lceil>x\<rceil>)"

text \<open>
  \<open>RetryManager.calculate_retry_delay\<close>; \<open>jitter\<close> is the double that
  \<open>random.uniform(0.8, 1.2)\<close> draws, and each of the three products is rounded. The
  multipliers are the decimal values of the table; the only one that is not a double is
  1.2, and the double product of \<open>60 * 2^n\<close> with the double 1.2 is the double
  \<open>72 * 2^n\<close>, as the rounded product with 6/5 is, so the delay before the jitter is the
  same number.
\<close>

definition calculate_retry_delay ::
  "(real \<Rightarrow> real) \<Rightarrow> RetryConfig \<Rightarrow> real \<Rightarrow> int \<Rightarrow> RetryReason \<Rightarrow> py_error + int" where
  "calculate_retry_delay fl retry_config jitter retry_count failure_reason =
     (let failure_config = map_of failure_patterns failure_reason;
          multiplier = (case failure_config of None \<Rightarrow> 1 | Some c \<Rightarrow> retry_multiplier c)
      in if failure_reason = RATE_LIMITED then Inr (rate_limit_backoff retry_config)
         else if failure_reason = SERVER_ERROR then Inr (server_error_backoff retry_config)
         else if (case failure_config of None \<Rightarrow> False | Some c \<Rightarrow> immediate_retry c)
         then Inr 0
         else (case py_float_pow fl (exponential_base retry_config) retry_count of
                 Inl e \<Rightarrow> Inl e
               | Inr p \<Rightarrow>
                   (let delay = min (fl (fl (real_of_int (base_delay retry_config) * p)
                                         * multiplier))
                                    (real_of_int (max_delay retry_config))
                    in Inr (py_int (fl (delay * jitter))))))"

text \<open>
  The delay as the specification words it, for comparison: the capped exponential delay
  times the jitter, with the three fixed cases.
\<close>

fun spec_multiplier :: "RetryReason \<Rightarrow> real" where
  "spec_multiplier NETWORK_ERROR = 3 / 2"
| "spec_multiplier TIMEOUT = 6 / 5"
| "spec_multiplier SERVER_ERROR = 2"
| "spec_multiplier RATE_LIMITED = 3"
| "spec_multiplier INDEXER_DOWN = 5 / 2"
| "spec_multiplier FILE_CORRUPTED = 1"
| "spec_multiplier DISK_FULL = 1"
| "spec_multiplier PERMISSION_ERROR = 1"
| "spec_multiplier UNKNOWN = 1"

definition spec_retry_delay :: "real \<Rightarrow> int \<Rightarrow> RetryReason \<Rightarrow> real" where
  "spec_retry_delay jitter retry_count reason =
     (if reason = RATE_LIMITED then 300
      else if reason = SERVER_ERROR then 900
      else if reason = FILE_CORRUPTED then 0
      else min 3600 (60 * power_int 2 retry_count * spec_multiplier reason) * jitter)"

section \<open>Database optimizer: the optimization run\<close>

datatype MaintenanceType = VACUUM | REINDEX | ANALYZE | CLEANUP | BACKUP | INTEGRITY_CHECK

datatype OptimizationStatus = SUCCESS | FAILED | SKIPPED | PARTIAL | IN_PROGRESS

text \<open>A row of \<open>PRAGMA foreign_key_check\<close>.\<close>

record fk_violation =
  fk_table :: string
  fk_rowid :: int
  fk_parent :: string
  fk_fkid :: int

text \<open>The keys that \<open>perform_integrity_check\<close> writes into \<open>task.details\<close>.\<close>

record task_details =
  quick_check_passed :: "bool option"
  quick_check_results :: "string list option"
  foreign_key_check_passed :: "bool option"
  foreign_key_violations :: "fk_violation list option"

text \<open>
  \<open>MaintenanceTask\<close>, without its identifier, its times and its counters, which no
  decision of the run reads.
\<close>

record MaintenanceTask =
  task_type :: MaintenanceType
  status :: OptimizationStatus
  error_message :: "string option"
  details :: task_details









section \<open>Download queue manager\<close>

datatype QueueStatus = PENDING | DOWNLOADING | COMPLETED | FAILED | CANCELLED | PAUSED

text \<open>
  \<open>DownloadTask\<close>: a row of \<open>download_queue\<close> as \<open>_row_to_download_task\<close> reads it,
  with the columns that the retry filter and the status updates read or write.
\<close>

record DownloadTask =
  task_id :: int
  indexer_id :: int
  status :: QueueStatus
  progress_percentage :: int
  download_path :: "string option"
  retry_count :: int
  max_retries :: int
  error_message :: "string option"

text \<open>An entry of \<open>self.failure_patterns[key]\<close>; the key \<open>indexer_<id>\<close> is the id.\<close>

record failure_entry =
  timestamp :: real
  error :: string

type_synonym failure_log = "int \<Rightarrow> failure_entry list option"

definition permanent_error_patterns :: "string list" where
  "permanent_error_patterns = [''404'', ''not found'', ''removed'', ''deleted'', ''unavailable'']"

text \<open>
  \<open>AdvancedQueueManager._filter_smart_retry\<close> at the time \<open>now\<close> (seconds): the loop
  over \<open>downloads\<close>, appending to \<open>filtered\<close>.
\<close>

fun filter_smart_retry_loop ::
  "failure_log \<Rightarrow> real \<Rightarrow> DownloadTask list \<Rightarrow> DownloadTask list \<Rightarrow> DownloadTask list" where
  "filter_smart_retry_loop failures now [] filtered = filtered"
| "filter_smart_retry_loop failures now (download # rest) filtered =
     (if (case failures (indexer_id download) of
            None \<Rightarrow> False
          | Some entries \<Rightarrow>
              length (filter (\<lambda>f. timestamp f > now - 3600) entries) > 5)
      then filter_smart_retry_loop failures now rest filtered
      else if (case error_message download of
                 None \<Rightarrow> False
               | Some m \<Rightarrow> m \<noteq> [] \<and> any_pattern_in permanent_error_patterns (py_lower m))
      then filter_smart_retry_loop failures now rest filtered
      else filter_smart_retry_loop failures now rest (filtered @ [download]))"

definition filter_smart_retry :: "failure_log \<Rightarrow> real \<Rightarrow> DownloadTask list \<Rightarrow> DownloadTask list" where
  "filter_smart_retry failures now downloads = filter_smart_retry_loop failures now downloads []"

text \<open>The two conditions in the words of the specification.\<close>

definition recent_failures :: "failure_log \<Rightarrow> real \<Rightarrow> int \<Rightarrow> nat" where
  "recent_failures failures now indexer =
     (case failures indexer of
        None \<Rightarrow> 0
      | Some entries \<Rightarrow> length (filter (\<lambda>f. timestamp f > now - 3600) entries))"

definition permanent_error :: "DownloadTask \<Rightarrow> bool" where
  "permanent_error d =
     (\<exists>m. error_message d = Some m \<and> (\<exists>p \<in> set permanent_error_patterns. py_in p (py_lower m)))"

text \<open>\<open>AdvancedQueueManager._record_failure_pattern\<close> at the time \<open>now\<close>.\<close>

definition record_failure_pattern :: "real \<Rightarrow> int \<Rightarrow> string \<Rightarrow> failure_log \<Rightarrow> failure_log" where
  "record_failure_pattern now indexer error_msg failures =
     (let entries = (case failures indexer of None \<Rightarrow> [] | Some es \<Rightarrow> es)
                    @ [\<lparr>timestamp = now, error = error_msg\<rparr>]
      in failures(indexer \<mapsto> filter (\<lambda>f. timestamp f > now - 86400) entries))"

text \<open>
  \<open>AdvancedQueueManager._update_download_status\<close> on the row of the item. The statement
  can fail; the exception is logged and the row stays as it is (\<open>db_ok\<close> false).
\<close>

definition update_download_status ::
  "bool \<Rightarrow> QueueStatus \<Rightarrow> string option \<Rightarrow> bool \<Rightarrow> DownloadTask \<Rightarrow> DownloadTask" where
  "update_download_status db_ok new_status message increment_retry r =
     (if \<not> db_ok then r
      else if increment_retry
      then r\<lparr>status := new_status, error_message := message,
               retry_count := retry_count r + 1\<rparr>
      else (let r1 = r\<lparr>status := new_status\<rparr>
            in case message of None \<Rightarrow> r1 | Some m \<Rightarrow> r1\<lparr>error_message := Some m\<rparr>))"

text \<open>\<open>AdvancedQueueManager._update_download_progress\<close>.\<close>

definition update_download_progress :: "bool \<Rightarrow> int \<Rightarrow> DownloadTask \<Rightarrow> DownloadTask" where
  "update_download_progress db_ok progress r =
     (if \<not> db_ok then r else r\<lparr>progress_percentage := progress\<rparr>)"

text \<open>
  How the \<open>try\<close> block of \<open>_download_file\<close> ends: it runs to its end (the file is at
  its final path and the row is committed as completed), it is cancelled
  (\<open>asyncio.CancelledError\<close>, raised by \<open>task.cancel()\<close> or after a chunk once the shutdown
  event is set), or it raises another exception.
\<close>

datatype body_outcome = Returned string | Cancelled | Raised string

text \<open>
  What the handlers of \<open>_download_file\<close> read and write: the row of the item, whether
  the temp file exists when the \<open>try\<close> block is left, the failure log, and the ids in
  \<open>self.active_downloads\<close>.
\<close>

record queue_state =
  row :: DownloadTask
  temp_exists :: bool
  failure_log :: failure_log
  active_downloads :: "int set"

record environment =
  db_ok :: bool
  unlink_ok :: bool

text \<open>
  \<open>AdvancedQueueManager._download_file\<close> from the end of its \<open>try\<close> block:
  \<open>download\<close> is the task object the coroutine was started with.
\<close>

definition download_file ::
  "environment \<Rightarrow> real \<Rightarrow> body_outcome \<Rightarrow> DownloadTask \<Rightarrow> queue_state \<Rightarrow> queue_state" where
  "download_file env now outcome download st =
     (let st1 =
        (case outcome of
           Returned final_path \<Rightarrow>
             st\<lparr>row := (row st)\<lparr>status := COMPLETED, progress_percentage := 100,
                                download_path := Some final_path\<rparr>,
                temp_exists := False\<rparr>
         | Cancelled \<Rightarrow>
             st\<lparr>row := update_download_status (db_ok env) CANCELLED None False (row st)\<rparr>
         | Raised error_msg \<Rightarrow>
             (let st2 = st\<lparr>failure_log :=
                          record_failure_pattern now (indexer_id download) error_msg
                            (failure_log st)\<rparr>
              in if retry_count download < max_retries download
                 then st2\<lparr>row := update_download_status (db_ok env) FAILED (Some error_msg)
                                    True (row st2)\<rparr>
                 else st2\<lparr>row := update_download_status (db_ok env) FAILED (Some error_msg)
                                    False (row st2)\<rparr>))
      in st1\<lparr>temp_exists := (temp_exists st1 \<and> \<not> unlink_ok env),
             active_downloads := active_downloads st1 - {task_id download}\<rparr>)"

text \<open>
  \<open>AdvancedQueueManager.get_pending_downloads\<close> on the row of the item: the task object
  that \<open>_row_to_download_task\<close> builds from the row if its status is \<open>pending\<close>; the
  query has no condition on \<open>retry_count\<close>. A failing query gives the empty list.
\<close>

definition get_pending_downloads :: "bool \<Rightarrow> queue_state \<Rightarrow> DownloadTask list" where
  "get_pending_downloads query_ok st =
     (if query_ok \<and> status (row st) = PENDING then [row st] else [])"

text \<open>
  \<open>AdvancedQueueManager.start_download\<close>: the status update, then the task that will run
  \<open>_download_file\<close> with the object \<open>download\<close> is created and stored under the id. A
  failing update is logged inside \<open>_update_download_status\<close>, so it never reaches the
  \<open>except\<close> branch, and the task is created all the same.
\<close>

definition start_download :: "environment \<Rightarrow> DownloadTask \<Rightarrow> queue_state \<Rightarrow> queue_state" where
  "start_download env download st =
     st\<lparr>row := update_download_status (db_ok env) DOWNLOADING None False (row st),
        active_downloads := insert (task_id download) (active_downloads st)\<rparr>"

section \<open>Duplicate detector: string similarity\<close>

text \<open>
  The inner loop of \<open>levenshtein_distance\<close>: the entries of \<open>current_row\<close> after the
  first, from \<open>previous_row\<close> (its part from index \<open>j\<close> on) and the last entry appended.
\<close>

fun lev_inner :: "char \<Rightarrow> string \<Rightarrow> nat list \<Rightarrow> nat \<Rightarrow> nat list" where
  "lev_inner c1 (c2 # s2) (p0 # p1 # previous_row) last_entry =
     (let insertions = p1 + 1;
          deletions = last_entry + 1;
          substitutions = p0 + (if c1 \<noteq> c2 then 1 else 0);
          entry = min (min insertions deletions) substitutions
      in entry # lev_inner c1 s2 (p1 # previous_row) entry)"
| "lev_inner c1 s2 previous_row last_entry = []"

text \<open>The outer loop, over the characters of \<open>s1\<close> with their index.\<close>

fun lev_outer :: "string \<Rightarrow> nat \<Rightarrow> string \<Rightarrow> nat list \<Rightarrow> nat list" where
  "lev_outer [] i s2 previous_row = previous_row"
| "lev_outer (c1 # s1) i s2 previous_row =
     lev_outer s1 (i + 1) s2 ((i + 1) # lev_inner c1 s2 previous_row (i + 1))"

definition levenshtein_distance :: "string \<Rightarrow> string \<Rightarrow> nat" where
  "levenshtein_distance a b =
     (let s1 = (if length a < length b then b else a);
          s2 = (if length a < length b then a else b)
      in if length s2 = 0 then length s1
         else last (lev_outer s1 0 s2 [0 ..< length s2 + 1]))"

text \<open>\<open>DuplicateDetector._levenshtein_similarity\<close>.\<close>

definition levenshtein_similarity :: "string \<Rightarrow> string \<Rightarrow> real" where
  "levenshtein_similarity str1 str2 =
     (let max_len = max (length str1) (length str2)
      in if max_len = 0 then 1
         else 1 - real (levenshtein_distance str1 str2) / real max_len)"

text \<open>
  \<open>DuplicateDetector._calculate_string_similarity\<close>. The ratio of
  \<open>difflib.SequenceMatcher\<close> is a parameter, \<open>seq_ratio\<close>; the cache
  \<open>self.similarity_cache\<close> is passed in and returned, as the list of its entries, and
  \<open>cache_size\<close> is \<open>self.similarity_cache_size\<close>.
\<close>

definition calculate_string_similarity ::
  "(string \<Rightarrow> string \<Rightarrow> real) \<Rightarrow> nat \<Rightarrow> (string \<times> real) list \<Rightarrow> string \<Rightarrow> string
     \<Rightarrow> real \<times> (string \<times> real) list" where
  "calculate_string_similarity seq_ratio cache_size similarity_cache str1 str2 =
     (if str1 = [] \<or> str2 = [] then (0, similarity_cache)
      else if str1 = str2 then (1, similarity_cache)
      else
        (let cache_key = str1 @ ''::'' @ str2 in
         case map_of similarity_cache cache_key of
           Some cached \<Rightarrow> (cached, similarity_cache)
         | None \<Rightarrow>
             (let similarity = seq_ratio str1 str2;
                  similarity1 =
                    (if length str1 < 100 \<and> length str2 < 100
                     then max similarity (levenshtein_similarity str1 str2)
                     else similarity)
              in (similarity1,
                  if length similarity_cache < cache_size
                  then similarity_cache @ [(cache_key, similarity1)]
                  else similarity_cache))))"

section \<open>Duplicate detector: normalisation\<close>

text \<open>
  \<open>unicodedata.normalize('NFKD', s)\<close> leaves ASCII text as it is; the theorems on the
  functions that call it are stated for ASCII strings.
\<close>

definition nfkd :: "string \<Rightarrow> string" where
  "nfkd s = s"

definition ascii_string :: "string \<Rightarrow> bool" where
  "ascii_string s = list_all is_ascii s"

text \<open>\<open>re.sub(r'\s+', ' ', s)\<close>: every run of whitespace becomes one space.\<close>

function collapse_ws :: "string \<Rightarrow> string" where
  "collapse_ws [] = []"
| "collapse_ws (c # cs) =
     (if is_space c then CHR '' '' # collapse_ws (dropWhile is_space cs)
      else c # collapse_ws cs)"
  by pat_completeness auto
termination
  by (relation "measure length") (auto simp: length_dropWhile_le less_Suc_eq_le)

text \<open>\<open>s.strip()\<close>.\<close>

definition py_strip :: "string \<Rightarrow> string" where
  "py_strip s = rev (dropWhile is_space (rev (dropWhile is_space s)))"

text \<open>\<open>DuplicateDetector._normalize_isbn\<close>.\<close>

definition normalize_isbn :: "string \<Rightarrow> string" where
  "normalize_isbn isbn =
     (if isbn = [] then []
      else py_upper (filter (\<lambda>c. \<not> (c = CHR ''-'' \<or> is_space c)) isbn))"

text \<open>The loop over \<open>articles\<close>, with its \<open>break\<close> at the first article found.\<close>

definition articles :: "string list" where
  "articles = [''the '', ''a '', ''an '', ''le '', ''la '', ''les '', ''un '', ''une '']"

fun strip_article :: "string list \<Rightarrow> string \<Rightarrow> string" where
  "strip_article [] normalized = normalized"
| "strip_article (article # rest) normalized =
     (if startswith normalized article then drop (length article) normalized
      else strip_article rest normalized)"

text \<open>
  The edition patterns, each anchored at the end of the text by \<open>$\<close> and matched
  with \<open>re.IGNORECASE\<close>. \<open>ends_edition r\<close>: \<open>r\<close> matches \<open>\s*edition\s*$\<close> from its
  start.
\<close>

definition starts_ci :: "string \<Rightarrow> string \<Rightarrow> bool" where
  "starts_ci s literal = startswith (py_lower s) literal"

definition ends_edition :: "string \<Rightarrow> bool" where
  "ends_edition r =
     (let r1 = dropWhile is_space r
      in starts_ci r1 ''edition'' \<and> list_all is_space (drop 7 r1))"

text \<open>\<open>\s*\d+(?:st|nd|rd|th)?\s*edition\s*$\<close> from the start of \<open>r\<close>.\<close>

definition matches_numbered_edition :: "string \<Rightarrow> bool" where
  "matches_numbered_edition r =
     (let r1 = dropWhile is_space r;
          r2 = dropWhile is_digit r1
      in takeWhile is_digit r1 \<noteq> []
         \<and> (((starts_ci r2 ''st'' \<or> starts_ci r2 ''nd'' \<or> starts_ci r2 ''rd''
               \<or> starts_ci r2 ''th'') \<and> ends_edition (drop 2 r2))
            \<or> ends_edition r2))"

text \<open>\<open>\s*<word>\s*edition\s*$\<close> from the start of \<open>r\<close>.\<close>

definition matches_word_edition :: "string \<Rightarrow> string \<Rightarrow> bool" where
  "matches_word_edition word r =
     (let r1 = dropWhile is_space r
      in starts_ci r1 word \<and> ends_edition (drop (length word) r1))"

text \<open>
  \<open>re.sub(pattern, '', s)\<close> for a pattern that ends with \<open>$\<close> and matches no empty
  text: the leftmost match runs to the end, so what is left is the text before the first
  position from which the pattern matches.
\<close>

fun strip_pattern :: "(string \<Rightarrow> bool) \<Rightarrow> string \<Rightarrow> string" where
  "strip_pattern m [] = []"
| "strip_pattern m (c # cs) = (if m (c # cs) then [] else c # strip_pattern m cs)"

text \<open>The body of \<open>_normalize_title\<close> behind the cache.\<close>

definition normalize_title_compute :: "string \<Rightarrow> string" where
  "normalize_title_compute title_text =
     (let n1 = nfkd title_text;
          n2 = py_lower n1;
          n3 = strip_article articles n2;
          n4 = filter (\<lambda>c. is_word c \<or> is_space c) n3;
          n5 = py_strip (collapse_ws n4);
          n6 = strip_pattern matches_numbered_edition n5;
          n7 = strip_pattern (matches_word_edition ''revised'') n6;
          n8 = strip_pattern (matches_word_edition ''updated'') n7;
          n9 = strip_pattern (matches_word_edition ''expanded'') n8
      in n9)"

text \<open>
  \<open>DuplicateDetector._normalize_title\<close>, with \<open>self.normalized_title_cache\<close> passed in
  and returned as the list of its entries.
\<close>

definition normalize_title ::
  "nat \<Rightarrow> (string \<times> string) list \<Rightarrow> string \<Rightarrow> string \<times> (string \<times> string) list" where
  "normalize_title cache_size normalized_title_cache title_text =
     (if title_text = [] then ([], normalized_title_cache)
      else case map_of normalized_title_cache title_text of
             Some cached \<Rightarrow> (cached, normalized_title_cache)
           | None \<Rightarrow>
               (let normalized = normalize_title_compute title_text
                in (normalized,
                    if length normalized_title_cache < cache_size
                    then normalized_title_cache @ [(title_text, normalized)]
                    else normalized_title_cache)))"

text \<open>\<open>DuplicateDetector._normalize_author\<close>.\<close>

definition normalize_author :: "string \<Rightarrow> string" where
  "normalize_author author =
     (if author = [] then []
      else
        (let n1 = nfkd author;
             n2 = py_lower n1;
             n3 = filter (\<lambda>c. is_word c \<or> is_space c \<or> c = CHR ''.'') n2;
             n4 = py_strip (collapse_ws n3)
         in if CHR '','' \<in> set n4
            then (let last_name = py_strip (takeWhile (\<lambda>c. c \<noteq> CHR '','') n4);
                      first_name = py_strip (drop 1 (dropWhile (\<lambda>c. c \<noteq> CHR '','') n4))
                  in py_strip (first_name @ '' '' @ last_name))
            else n4))"

text \<open>\<open>re.search(r'\d{4}', s)\<close>: the first four digits in a row, or nothing.\<close>

fun find_year :: "string \<Rightarrow> string" where
  "find_year [] = []"
| "find_year (c # cs) =
     (if length (c # cs) \<ge> 4 \<and> list_all is_digit (take 4 (c # cs)) then take 4 (c # cs)
      else find_year cs)"

text \<open>\<open>DuplicateDetector._normalize_date\<close>.\<close>

definition normalize_date :: "string \<Rightarrow> string" where
  "normalize_date date_str = (if date_str = [] then [] else find_year date_str)"

text \<open>
  Text in which \<open>re.sub(r'\s+', ' ', s)\<close> finds nothing to change: its whitespace is
  single spaces, none next to another.
\<close>

fun collapsed :: "string \<Rightarrow> bool" where
  "collapsed [] = True"
| "collapsed [c] = (is_space c \<longrightarrow> c = CHR '' '')"
| "collapsed (c # d # r) = ((is_space c \<longrightarrow> c = CHR '' '' \<and> \<not> is_space d) \<and> collapsed (d # r))"

text \<open>The four substitutions of the loop over \<open>edition_patterns\<close>, in turn.\<close>

definition strip_editions :: "string \<Rightarrow> string" where
  "strip_editions n =
     strip_pattern (matches_word_edition ''expanded'')
       (strip_pattern (matches_word_edition ''updated'')
          (strip_pattern (matches_word_edition ''revised'')
             (strip_pattern matches_numbered_edition n)))"

text \<open>The text that \<open>_normalize_title\<close> has when it reaches that loop.\<close>

definition title_base :: "string \<Rightarrow> string" where
  "title_base title_text =
     py_strip (collapse_ws (filter (\<lambda>c. is_word c \<or> is_space c)
       (strip_article articles (py_lower (nfkd title_text)))))"

text \<open>A title cache whose entries are results of \<open>_normalize_title\<close>, as it fills it.\<close>

definition cache_consistent :: "(string \<times> string) list \<Rightarrow> bool" where
  "cache_consistent cache = list_all (\<lambda>(k, v). v = normalize_title_compute k) cache"

section \<open>Lemmas\<close>

lemma any_pattern_in_iff:
  "any_pattern_in ps e \<longleftrightarrow> (\<exists>p \<in> set ps. py_in p e)"
  by (induction ps) auto

lemma categorize_loop_no_match:
  "(\<And>reason config. (reason, config) \<in> set table \<Longrightarrow> \<not> any_pattern_in (patterns config) e)
   \<Longrightarrow> categorize_loop table e = UNKNOWN"
proof (induction table)
  case Nil
  show ?case by simp
next
  case (Cons entry table)
  obtain reason config where entry: "entry = (reason, config)"
    by (cases entry)
  have "\<not> any_pattern_in (patterns config) e"
    using Cons.prems [of reason config] entry by simp
  moreover have "categorize_loop table e = UNKNOWN"
  proof (rule Cons.IH)
    fix r c
    assume "(r, c) \<in> set table"
    then show "\<not> any_pattern_in (patterns c) e"
      using Cons.prems [of r c] by simp
  qed
  ultimately show ?case
    using entry by simp
qed

lemma configured_patterns_member:
  "(reason, config) \<in> set failure_patterns \<Longrightarrow> p \<in> set (patterns config)
   \<Longrightarrow> p \<in> set configured_patterns"
  unfolding configured_patterns_def by force

lemma dedup_loop_distinct:
  "distinct (map canonical_pair unique) \<Longrightarrow> canonical_pair ` set unique \<subseteq> seen
   \<Longrightarrow> distinct (map canonical_pair (dedup_loop ms seen unique))"
proof (induction ms arbitrary: seen unique)
  case Nil
  then show ?case by simp
next
  case (Cons m ms)
  show ?case
  proof (cases "canonical_pair m \<in> seen")
    case True
    then show ?thesis
      using Cons.IH [of unique seen] Cons.prems by simp
  next
    case False
    have fresh: "canonical_pair m \<notin> canonical_pair ` set unique"
      using False Cons.prems(2) by blast
    have d: "distinct (map canonical_pair (unique @ [m]))"
      using Cons.prems(1) fresh by simp
    have s: "canonical_pair ` set (unique @ [m]) \<subseteq> insert (canonical_pair m) seen"
      using Cons.prems(2) by auto
    show ?thesis
      using Cons.IH [OF d s] False by simp
  qed
qed

lemma distinct_map_sort_reverse:
  "distinct (map f (sort_reverse k xs)) = distinct (map f xs)"
proof -
  have "mset (map f (sort_reverse k xs)) = mset (map f xs)"
    by (simp add: sort_reverse_def)
  then show ?thesis
    by (rule mset_eq_imp_distinct_iff)
qed

section \<open>Claims\<close>

text \<open>
  C9. In the list of matches that one run of \<open>detect_duplicates\<close> returns, no two
  entries have the same canonical pair (smaller id, larger id): every unordered pair of
  book ids appears at most once, whatever the four searches found.
\<close>

theorem detect_duplicates_pairs_unique:
  "distinct (map canonical_pair (detect_duplicates f books))"
proof -
  have "distinct (map canonical_pair (deduplicate_matches ds))" for ds
    unfolding deduplicate_matches_def
    by (rule dedup_loop_distinct) simp_all
  then show ?thesis
    by (simp add: detect_duplicates_def distinct_map_sort_reverse)
qed

text \<open>
  C10. \<open>categorize_failure\<close> is a total function, and it answers \<open>UNKNOWN\<close> for
  \<open>None\<close>, for the empty message, and for every message whose lower-cased text
  contains none of the configured substrings.
\<close>

theorem categorize_failure_default_unknown:
  "msg = None \<or> msg = Some []
   \<or> (\<exists>m. msg = Some m \<and> (\<forall>p \<in> set configured_patterns. \<not> py_in p (py_lower m)))
   \<Longrightarrow> categorize_failure msg = UNKNOWN"
proof -
  assume h: "msg = None \<or> msg = Some []
   \<or> (\<exists>m. msg = Some m \<and> (\<forall>p \<in> set configured_patterns. \<not> py_in p (py_lower m)))"
  show ?thesis
  proof (cases msg)
    case None
    then show ?thesis by (simp add: categorize_failure_def)
  next
    case (Some m)
    show ?thesis
    proof (cases "m = []")
      case True
      then show ?thesis using Some by (simp add: categorize_failure_def)
    next
      case False
      then have nomatch: "\<forall>p \<in> set configured_patterns. \<not> py_in p (py_lower m)"
        using h Some by auto
      have "categorize_loop failure_patterns (py_lower m) = UNKNOWN"
      proof (rule categorize_loop_no_match)
        fix reason config
        assume "(reason, config) \<in> set failure_patterns"
        then have "\<forall>p \<in> set (patterns config). p \<in> set configured_patterns"
          using configured_patterns_member by blast
        then show "\<not> any_pattern_in (patterns config) (py_lower m)"
          using nomatch by (auto simp: any_pattern_in_iff)
      qed
      then show ?thesis
        using Some False by (simp add: categorize_failure_def)
    qed
  qed
qed

theorem categorize_failure_default_unknown_witness:
  "\<not> (\<exists>p \<in> set configured_patterns. py_in p (py_lower ''Weird Glitch''))
   \<and> categorize_failure (Some ''Weird Glitch'') = UNKNOWN"
proof -
  have h: "\<forall>p \<in> set configured_patterns. \<not> py_in p (py_lower ''Weird Glitch'')"
    by code_simp
  then show ?thesis
    using categorize_failure_default_unknown [of "Some ''Weird Glitch''"] by simp
qed

lemma consecutive_failures_snoc:
  "consecutive_failures (evs @ [ev]) =
     (case ev of CallAllowed now \<Rightarrow> consecutive_failures evs
      | RecordSuccess \<Rightarrow> 0
      | RecordFailure now \<Rightarrow> Suc (consecutive_failures evs))"
  by (cases ev) (simp_all add: consecutive_failures_def)

lemma breaker_after_snoc:
  "breaker_after th tmo (evs @ [ev]) = breaker_step (breaker_after th tmo evs) ev"
  by (simp add: breaker_after_def)

lemma failure_times_append: "failure_times (xs @ ys) = failure_times xs @ failure_times ys"
  by (induction xs rule: failure_times.induct) simp_all

lemma last_failure_snoc:
  "last_failure (evs @ [ev]) =
     (case ev of CallAllowed now \<Rightarrow> last_failure evs
      | RecordSuccess \<Rightarrow> last_failure evs
      | RecordFailure now \<Rightarrow> Some now)"
  by (cases ev) (simp_all add: last_failure_def failure_times_append)

lemma breaker_invariant:
  "failure_threshold (breaker_after th tmo evs) = th
   \<and> recovery_timeout (breaker_after th tmo evs) = tmo
   \<and> failure_count (breaker_after th tmo evs) = int (consecutive_failures evs)
   \<and> last_failure_time (breaker_after th tmo evs) = last_failure evs
   \<and> (state (breaker_after th tmo evs) \<noteq> CLOSED \<longrightarrow>
        th \<le> failure_count (breaker_after th tmo evs)
        \<and> last_failure_time (breaker_after th tmo evs) \<noteq> None)
   \<and> (1 \<le> th \<longrightarrow> state (breaker_after th tmo evs) = CLOSED \<longrightarrow>
        failure_count (breaker_after th tmo evs) < th)"
proof (induction evs rule: rev_induct)
  case Nil
  show ?case
    by (simp add: breaker_after_def CircuitBreaker_init_def consecutive_failures_def
          last_failure_def)
next
  case (snoc ev evs)
  show ?case
  proof (cases ev)
    case (CallAllowed now)
    then show ?thesis
      using snoc.IH
      by (auto simp: breaker_after_snoc consecutive_failures_snoc last_failure_snoc
               call_allowed_def split: breaker_state.splits option.splits)
  next
    case RecordSuccess
    then show ?thesis
      using snoc.IH
      by (simp add: breaker_after_snoc consecutive_failures_snoc last_failure_snoc
            record_success_def)
  next
    case (RecordFailure now)
    then show ?thesis
      using snoc.IH
      by (auto simp: breaker_after_snoc consecutive_failures_snoc last_failure_snoc
               record_failure_def Let_def)
  qed
qed

text \<open>
  C6. For a breaker with a positive threshold, after any history of calls: the counter is
  the number of consecutive recorded failures and the stored time is that of the last
  recorded failure of the history. The breaker is \<open>CLOSED\<close> exactly while the consecutive
  recorded failures are below \<open>failure_threshold\<close>, and it passes from \<open>CLOSED\<close> to
  \<open>OPEN\<close> exactly at the failure that brings them to the threshold. While \<open>OPEN\<close>, with
  \<open>t\<close> the time of the last recorded failure, \<open>call_allowed\<close> answers \<open>False\<close> and changes
  nothing as long as no more than \<open>recovery_timeout\<close> seconds have passed since \<open>t\<close>; once
  more than that have passed it answers \<open>True\<close> and the breaker is \<open>HALF_OPEN\<close>. In
  \<open>CLOSED\<close> and in \<open>HALF_OPEN\<close> the call is allowed and the breaker stays as it is. A
  recorded success gives \<open>CLOSED\<close> with the counter at 0; a recorded failure in
  \<open>HALF_OPEN\<close> gives \<open>OPEN\<close>, and every recorded failure restarts the timer.
\<close>

theorem breaker_transitions:
  assumes "1 \<le> threshold"
  shows "failure_count (breaker_after threshold timeout events)
            = int (consecutive_failures events)
    \<and> last_failure_time (breaker_after threshold timeout events) = last_failure events
    \<and> (state (breaker_after threshold timeout events) = CLOSED
            \<longleftrightarrow> int (consecutive_failures events) < threshold)
    \<and> (state (breaker_after threshold timeout events) = CLOSED
         \<and> state (record_failure now (breaker_after threshold timeout events)) = OPEN
            \<longleftrightarrow> int (consecutive_failures events) + 1 = threshold)
    \<and> (state (record_failure now (breaker_after threshold timeout events)) = OPEN
            \<longleftrightarrow> threshold \<le> int (consecutive_failures (events @ [RecordFailure now])))
    \<and> (state (breaker_after threshold timeout events) = CLOSED \<longrightarrow>
          call_allowed now (breaker_after threshold timeout events)
            = (True, breaker_after threshold timeout events))
    \<and> (state (breaker_after threshold timeout events) = OPEN \<longrightarrow>
          (\<exists>t. last_failure events = Some t
             \<and> call_allowed now (breaker_after threshold timeout events) =
                 (if now - t > real_of_int timeout
                  then (True, (breaker_after threshold timeout events)\<lparr>state := HALF_OPEN\<rparr>)
                  else (False, breaker_after threshold timeout events))))
    \<and> (state (breaker_after threshold timeout events) = HALF_OPEN \<longrightarrow>
          call_allowed now (breaker_after threshold timeout events)
            = (True, breaker_after threshold timeout events)
          \<and> state (record_failure now (breaker_after threshold timeout events)) = OPEN)
    \<and> state (record_success (breaker_after threshold timeout events)) = CLOSED
    \<and> failure_count (record_success (breaker_after threshold timeout events)) = 0
    \<and> last_failure_time (record_failure now (breaker_after threshold timeout events))
          = Some now"
proof -
  define cb where "cb = breaker_after threshold timeout events"
  note inv = breaker_invariant [of threshold timeout events, folded cb_def]
  have th: "failure_threshold cb = threshold" and tm: "recovery_timeout cb = timeout"
    and cnt: "failure_count cb = int (consecutive_failures events)"
    and stamp: "last_failure_time cb = last_failure events"
    using inv by simp_all
  have tripped: "state cb \<noteq> CLOSED \<Longrightarrow> threshold \<le> failure_count cb"
    and closed: "state cb = CLOSED \<Longrightarrow> failure_count cb < threshold"
    using inv assms by simp_all
  have stamped: "state cb \<noteq> CLOSED \<Longrightarrow> last_failure_time cb \<noteq> None"
    using inv by blast
  have p1: "state cb = CLOSED \<longleftrightarrow> int (consecutive_failures events) < threshold"
    using tripped closed cnt by fastforce
  have after: "state (record_failure now cb) = OPEN \<longleftrightarrow> threshold \<le> failure_count cb + 1"
    using tripped th by (cases "state cb") (auto simp: record_failure_def Let_def)
  have p2: "state cb = CLOSED \<and> state (record_failure now cb) = OPEN
              \<longleftrightarrow> int (consecutive_failures events) + 1 = threshold"
    using after p1 cnt by auto
  have p3: "state (record_failure now cb) = OPEN
              \<longleftrightarrow> threshold \<le> int (consecutive_failures (events @ [RecordFailure now]))"
  proof -
    have "int (consecutive_failures (events @ [RecordFailure now])) = failure_count cb + 1"
      using cnt by (simp add: consecutive_failures_snoc)
    then show ?thesis
      using after by simp
  qed
  have pc: "state cb = CLOSED \<longrightarrow> call_allowed now cb = (True, cb)"
    by (simp add: call_allowed_def)
  have p4: "state cb = OPEN \<longrightarrow>
          (\<exists>t. last_failure events = Some t
             \<and> call_allowed now cb =
                 (if now - t > real_of_int timeout
                  then (True, cb\<lparr>state := HALF_OPEN\<rparr>) else (False, cb)))"
  proof
    assume op: "state cb = OPEN"
    then obtain t where t: "last_failure_time cb = Some t"
      using stamped by fastforce
    have "call_allowed now cb =
            (if now - t > real_of_int timeout
             then (True, cb\<lparr>state := HALF_OPEN\<rparr>) else (False, cb))"
      using op t tm by (simp add: call_allowed_def)
    then show "\<exists>t. last_failure events = Some t
             \<and> call_allowed now cb =
                 (if now - t > real_of_int timeout
                  then (True, cb\<lparr>state := HALF_OPEN\<rparr>) else (False, cb))"
      using t stamp by simp
  qed
  have p5: "state cb = HALF_OPEN \<longrightarrow>
          call_allowed now cb = (True, cb) \<and> state (record_failure now cb) = OPEN"
    using after tripped by (auto simp: call_allowed_def)
  have p6: "state (record_success cb) = CLOSED" "failure_count (record_success cb) = 0"
    by (simp_all add: record_success_def)
  have p7: "last_failure_time (record_failure now cb) = Some now"
    by (simp add: record_failure_def Let_def)
  show ?thesis
    using cnt stamp p1 p2 p3 pc p4 p5 p6 p7 unfolding cb_def by blast
qed

theorem breaker_transitions_witness:
  "state (breaker_after 3 60 [RecordFailure 0, RecordFailure 1, RecordFailure 2]) = OPEN
   \<and> consecutive_failures [RecordFailure 0, RecordFailure 1, RecordFailure 2] = 3
   \<and> last_failure [RecordFailure 0, RecordFailure 1, RecordFailure 2] = Some 2
   \<and> call_allowed 62 (breaker_after 3 60 [RecordFailure 0, RecordFailure 1, RecordFailure 2])
       = (False, breaker_after 3 60 [RecordFailure 0, RecordFailure 1, RecordFailure 2])
   \<and> state (breaker_after 3 60
         [RecordFailure 0, RecordFailure 1, RecordFailure 2, CallAllowed 63]) = HALF_OPEN
   \<and> state (record_failure 64 (breaker_after 3 60
         [RecordFailure 0, RecordFailure 1, RecordFailure 2, CallAllowed 63])) = OPEN
   \<and> state (breaker_after 3 60
         [RecordFailure 0, RecordFailure 1, RecordFailure 2, CallAllowed 63,
          RecordFailure 64]) = OPEN
   \<and> call_allowed 65 (breaker_after 3 60
         [RecordFailure 0, RecordFailure 1, RecordFailure 2, CallAllowed 63,
          RecordFailure 64])
       = (False, breaker_after 3 60
         [RecordFailure 0, RecordFailure 1, RecordFailure 2, CallAllowed 63,
          RecordFailure 64])"
proof -
  have open3: "state (breaker_after 3 60 [RecordFailure 0, RecordFailure 1, RecordFailure 2]) = OPEN"
    and half: "state (breaker_after 3 60
         [RecordFailure 0, RecordFailure 1, RecordFailure 2, CallAllowed 63]) = HALF_OPEN"
    and again: "state (breaker_after 3 60
         [RecordFailure 0, RecordFailure 1, RecordFailure 2, CallAllowed 63,
          RecordFailure 64]) = OPEN"
    by (simp_all add: breaker_after_def CircuitBreaker_init_def record_failure_def
          call_allowed_def Let_def)
  have three: "consecutive_failures [RecordFailure 0, RecordFailure 1, RecordFailure 2] = 3"
    by (simp add: consecutive_failures_def)
  have lf3: "last_failure [RecordFailure 0, RecordFailure 1, RecordFailure 2] = Some 2"
    and lf5: "last_failure [RecordFailure 0, RecordFailure 1, RecordFailure 2, CallAllowed 63,
          RecordFailure 64] = Some 64"
    by (simp_all add: last_failure_def)
  have refused: "call_allowed 62 (breaker_after 3 60 [RecordFailure 0, RecordFailure 1, RecordFailure 2])
       = (False, breaker_after 3 60 [RecordFailure 0, RecordFailure 1, RecordFailure 2])"
    using breaker_transitions [of 3 60 "[RecordFailure 0, RecordFailure 1, RecordFailure 2]" 62]
      open3 lf3 by simp
  have reopened: "state (record_failure 64 (breaker_after 3 60
         [RecordFailure 0, RecordFailure 1, RecordFailure 2, CallAllowed 63])) = OPEN"
    using breaker_transitions [of 3 60
        "[RecordFailure 0, RecordFailure 1, RecordFailure 2, CallAllowed 63]" 64] half
    by simp
  have refused_again: "call_allowed 65 (breaker_after 3 60
         [RecordFailure 0, RecordFailure 1, RecordFailure 2, CallAllowed 63,
          RecordFailure 64])
       = (False, breaker_after 3 60
         [RecordFailure 0, RecordFailure 1, RecordFailure 2, CallAllowed 63,
          RecordFailure 64])"
    using breaker_transitions [of 3 60
        "[RecordFailure 0, RecordFailure 1, RecordFailure 2, CallAllowed 63,
          RecordFailure 64]" 65] again lf5
    by simp
  show ?thesis
    using open3 three lf3 refused half reopened again refused_again by simp
qed

lemma multiplier_lookup:
  "(case map_of failure_patterns reason of None \<Rightarrow> 1 | Some c \<Rightarrow> retry_multiplier c)
     = spec_multiplier reason"
  by (cases reason) (simp_all add: failure_patterns_def)

lemma immediate_lookup:
  "(case map_of failure_patterns reason of None \<Rightarrow> False | Some c \<Rightarrow> immediate_retry c)
     = (reason = FILE_CORRUPTED)"
  by (cases reason) (simp_all add: failure_patterns_def)

lemma spec_multiplier_pos: "0 < spec_multiplier reason"
  by (cases reason) simp_all

lemma nearest_fixes: "rounds_to_nearest fl \<Longrightarrow> is_double x \<Longrightarrow> fl x = x"
proof -
  assume "rounds_to_nearest fl" and "is_double x"
  then have "\<bar>fl x - x\<bar> \<le> \<bar>x - x\<bar>"
    unfolding rounds_to_nearest_def by blast
  then show ?thesis by simp
qed

lemma nearest_ge: "rounds_to_nearest fl \<Longrightarrow> is_double a \<Longrightarrow> a \<le> x \<Longrightarrow> a \<le> fl x"
proof -
  assume "rounds_to_nearest fl" and "is_double a" and ax: "a \<le> x"
  then have "\<bar>fl x - x\<bar> \<le> \<bar>a - x\<bar>"
    unfolding rounds_to_nearest_def by blast
  then show ?thesis
    using ax by linarith
qed

lemma nearest_le: "rounds_to_nearest fl \<Longrightarrow> is_double b \<Longrightarrow> x \<le> b \<Longrightarrow> fl x \<le> b"
proof -
  assume "rounds_to_nearest fl" and "is_double b" and xb: "x \<le> b"
  then have "\<bar>fl x - x\<bar> \<le> \<bar>b - x\<bar>"
    unfolding rounds_to_nearest_def by blast
  then show ?thesis
    using xb by linarith
qed

lemma is_double_int: "\<bar>k\<bar> < 2 ^ 53 \<Longrightarrow> is_double (real_of_int k)"
proof -
  assume "\<bar>k\<bar> < 2 ^ 53"
  then have "real_of_int k = real_of_int k * power_int 2 0 \<and> \<bar>k\<bar> < 2 ^ 53
             \<and> - 1074 \<le> (0::int) \<and> (0::int) \<le> 971"
    by simp
  then show ?thesis
    unfolding is_double_def by blast
qed

lemma is_double_power: "0 \<le> n \<Longrightarrow> n < 1024 \<Longrightarrow> is_double (power_int 2 n)"
proof (cases "n \<le> 971")
  case True
  assume "0 \<le> n"
  then have "power_int 2 n = real_of_int 1 * power_int 2 n \<and> \<bar>1::int\<bar> < 2 ^ 53
             \<and> - 1074 \<le> n \<and> n \<le> 971"
    using True by simp
  then show ?thesis
    unfolding is_double_def by blast
next
  case False
  assume "n < 1024"
  then have "n = int (nat (n - 971)) + 971 \<and> nat (n - 971) \<le> 52"
    using False by simp
  then obtain k where n: "n = int k + 971" and k: "k \<le> 52"
    by blast
  have "(2::int) ^ k \<le> 2 ^ 52"
    using k by (intro power_increasing) simp_all
  then have small: "\<bar>(2::int) ^ k\<bar> < 2 ^ 53"
    by simp
  have "power_int (2::real) (int k + 971) = power_int 2 (int k) * power_int 2 971"
    by (subst power_int_add) simp_all
  then have "power_int (2::real) n = real_of_int (2 ^ k) * power_int 2 971"
    using n by simp
  then have "power_int 2 n = real_of_int (2 ^ k) * power_int 2 971
                \<and> \<bar>(2::int) ^ k\<bar> < 2 ^ 53
                \<and> - 1074 \<le> (971::int) \<and> (971::int) \<le> 971"
    using small by simp
  then show ?thesis
    unfolding is_double_def by blast
qed

lemma py_float_pow_two:
  assumes "rounds_to_nearest fl" and "0 \<le> n" and "n < 1024"
  shows "py_float_pow fl 2 n = Inr (power_int 2 n)"
proof -
  have "power_int (2::real) n < power_int 2 1024"
    using assms(3) by (intro power_int_strict_increasing) auto
  moreover have "fl (power_int 2 n) = power_int 2 n"
    using assms(1) is_double_power [OF assms(2,3)] by (rule nearest_fixes)
  ultimately show ?thesis
    by (simp add: py_float_pow_def)
qed


lemma scaled_multiplier:
  obtains k :: int where "60 * spec_multiplier reason = real_of_int k" and "0 < k" and "k \<le> 180"
proof (cases reason)
  case NETWORK_ERROR
  then show ?thesis using that [of 90] by simp
next
  case TIMEOUT
  then show ?thesis using that [of 72] by simp
next
  case SERVER_ERROR
  then show ?thesis using that [of 120] by simp
next
  case RATE_LIMITED
  then show ?thesis using that [of 180] by simp
next
  case INDEXER_DOWN
  then show ?thesis using that [of 150] by simp
next
  case FILE_CORRUPTED
  then show ?thesis using that [of 60] by simp
next
  case DISK_FULL
  then show ?thesis using that [of 60] by simp
next
  case PERMISSION_ERROR
  then show ?thesis using that [of 60] by simp
next
  case UNKNOWN
  then show ?thesis using that [of 60] by simp
qed

lemma spec_multiplier_ge_one: "1 \<le> spec_multiplier reason"
  by (cases reason) simp_all

lemma delay_exact:
  assumes near: "rounds_to_nearest fl" and "0 \<le> n"
  shows "min (fl (fl (60 * power_int 2 n) * spec_multiplier reason)) 3600
         = min (60 * power_int 2 n * spec_multiplier reason) 3600"
proof (cases "n \<le> 5")
  case True
  then have "n = int (nat n) \<and> nat n \<le> 5"
    using assms(2) by simp
  then obtain k where n: "n = int k" and k: "k \<le> 5"
    by blast
  have pow: "(2::int) ^ k \<le> 2 ^ 5"
    using k by (intro power_increasing) simp_all
  have p: "power_int (2::real) n = real_of_int (2 ^ k)"
    using n by simp
  have "\<bar>60 * (2::int) ^ k\<bar> < 2 ^ 53"
    using pow by simp
  then have d60: "is_double (real_of_int (60 * 2 ^ k))"
    by (rule is_double_int)
  have e60: "60 * power_int 2 n = real_of_int (60 * 2 ^ k)"
    by (simp only: p of_int_mult of_int_numeral)
  have inner: "fl (60 * power_int 2 n) = 60 * power_int 2 n"
    unfolding e60 using near d60 by (rule nearest_fixes)
  obtain s :: int where s: "60 * spec_multiplier reason = real_of_int s"
    and s0: "0 < s" and s180: "s \<le> 180"
    by (rule scaled_multiplier)
  have "s * 2 ^ k \<le> 180 * 2 ^ 5"
    using s0 s180 pow by (intro mult_mono) simp_all
  moreover have "0 \<le> s * 2 ^ k"
    using s0 by simp
  ultimately have "\<bar>s * 2 ^ k\<bar> < 2 ^ 53"
    by simp
  then have ds: "is_double (real_of_int (s * 2 ^ k))"
    by (rule is_double_int)
  have "60 * power_int 2 n * spec_multiplier reason
          = (60 * spec_multiplier reason) * power_int 2 n"
    by (simp only: mult.commute mult.left_commute)
  also have "\<dots> = real_of_int s * real_of_int (2 ^ k)"
    by (simp only: s p)
  also have "\<dots> = real_of_int (s * 2 ^ k)"
    by (simp only: of_int_mult)
  finally have es: "60 * power_int 2 n * spec_multiplier reason = real_of_int (s * 2 ^ k)" .
  have "fl (60 * power_int 2 n * spec_multiplier reason)
                   = 60 * power_int 2 n * spec_multiplier reason"
    unfolding es using near ds by (rule nearest_fixes)
  then show ?thesis
    by (simp only: inner)
next
  case False
  then have "power_int (2::real) 6 \<le> power_int 2 n"
    by (intro power_int_increasing) simp_all
  then have big: "3840 \<le> 60 * power_int (2::real) n"
    by simp
  have d3840: "is_double 3840"
    using is_double_int [of 3840] by simp
  have inner: "3840 \<le> fl (60 * power_int 2 n)"
    using near d3840 big by (rule nearest_ge)
  have m: "1 \<le> spec_multiplier reason"
    by (rule spec_multiplier_ge_one)
  have "3840 * 1 \<le> fl (60 * power_int 2 n) * spec_multiplier reason"
    using inner m by (intro mult_mono) simp_all
  then have "3840 \<le> fl (60 * power_int 2 n) * spec_multiplier reason"
    by simp
  then have outer: "3840 \<le> fl (fl (60 * power_int 2 n) * spec_multiplier reason)"
    by (rule nearest_ge [OF near d3840])
  have "3840 * 1 \<le> 60 * power_int 2 n * spec_multiplier reason"
    using big m by (intro mult_mono) simp_all
  then have exact: "3840 \<le> 60 * power_int 2 n * spec_multiplier reason"
    by simp
  show ?thesis
    using outer exact by simp
qed

lemma calculate_retry_delay_default:
  "calculate_retry_delay fl default_retry_config jitter n reason =
     (if reason = RATE_LIMITED then Inr 300
      else if reason = SERVER_ERROR then Inr 900
      else if reason = FILE_CORRUPTED then Inr 0
      else (case py_float_pow fl 2 n of
              Inl e \<Rightarrow> Inl e
            | Inr p \<Rightarrow>
                Inr (py_int (fl (min (fl (fl (60 * p) * spec_multiplier reason)) 3600 * jitter)))))"
  unfolding calculate_retry_delay_def Let_def multiplier_lookup immediate_lookup
  by (simp add: default_retry_config_def split: sum.split)

lemma spec_retry_delay_range:
  assumes "0 \<le> n" and "4 / 5 \<le> jitter" and "jitter \<le> 6 / 5"
  shows "0 \<le> spec_retry_delay jitter n reason \<and> spec_retry_delay jitter n reason \<le> 4320"
proof -
  have pos: "0 \<le> min 3600 (60 * power_int 2 n * spec_multiplier reason)"
    using spec_multiplier_pos [of reason] by simp
  have "min 3600 (60 * power_int 2 n * spec_multiplier reason) * jitter \<le> 3600 * (6 / 5)"
    using pos assms by (intro mult_mono) simp_all
  then have "min 3600 (60 * power_int 2 n * spec_multiplier reason) * jitter \<le> 4320"
    by simp
  moreover have "0 \<le> min 3600 (60 * power_int 2 n * spec_multiplier reason) * jitter"
    using pos assms by (intro mult_nonneg_nonneg) simp_all
  ultimately show ?thesis
    by (simp add: spec_retry_delay_def)
qed

lemma floor_of_rounded:
  assumes near: "rounds_to_nearest fl" and "0 \<le> x" and "x \<le> 4320"
  shows "0 \<le> fl x \<and> \<lfloor>x\<rfloor> \<le> \<lfloor>fl x\<rfloor> \<and> \<lfloor>fl x\<rfloor> \<le> \<lceil>x\<rceil>"
proof -
  have lo: "0 \<le> \<lfloor>x\<rfloor>" and hi: "\<lceil>x\<rceil> \<le> 4320"
    using assms(2,3) by (simp_all add: ceiling_le_iff)
  have "\<lfloor>x\<rfloor> \<le> \<lceil>x\<rceil>"
    by (rule floor_le_ceiling)
  then have "\<bar>\<lfloor>x\<rfloor>\<bar> < 2 ^ 53" and "\<bar>\<lceil>x\<rceil>\<bar> < 2 ^ 53"
    using lo hi by simp_all
  then have df: "is_double (real_of_int \<lfloor>x\<rfloor>)" and dc: "is_double (real_of_int \<lceil>x\<rceil>)"
    by (simp_all add: is_double_int)
  have below: "real_of_int \<lfloor>x\<rfloor> \<le> fl x"
    using near df by (rule nearest_ge) simp
  have above: "fl x \<le> real_of_int \<lceil>x\<rceil>"
    using near dc by (rule nearest_le) simp
  have "0 \<le> fl x"
    using below lo by linarith
  moreover have "\<lfloor>x\<rfloor> \<le> \<lfloor>fl x\<rfloor>"
    using below by (simp add: le_floor_iff)
  moreover have "\<lfloor>fl x\<rfloor> \<le> \<lceil>x\<rceil>"
    using above by (simp add: floor_le_iff)
  ultimately show ?thesis by simp
qed

lemma calculate_retry_delay_general:
  assumes near: "rounds_to_nearest fl" and n0: "0 \<le> n" and n1: "n < 1024"
    and lo: "4 / 5 \<le> jitter" and hi: "jitter \<le> 6 / 5"
  shows "calculate_retry_delay fl default_retry_config jitter n reason
          = Inr \<lfloor>fl (spec_retry_delay jitter n reason)\<rfloor>"
proof -
  have range: "0 \<le> spec_retry_delay jitter n reason" "spec_retry_delay jitter n reason \<le> 4320"
    using spec_retry_delay_range [OF n0 lo hi] by simp_all
  have nonneg: "0 \<le> fl (spec_retry_delay jitter n reason)"
    using floor_of_rounded [OF near range] by simp
  have "is_double 300" "is_double 900" "is_double 0"
    using is_double_int [of 300] is_double_int [of 900] is_double_int [of 0]
    by simp_all
  then have fixed: "fl 300 = 300" "fl 900 = 900" "fl 0 = 0"
    using nearest_fixes [OF near, of 300] nearest_fixes [OF near, of 900]
      nearest_fixes [OF near, of 0] by blast+
  show ?thesis
  proof (cases "reason = RATE_LIMITED \<or> reason = SERVER_ERROR \<or> reason = FILE_CORRUPTED")
    case True
    then show ?thesis
      using fixed by (auto simp: calculate_retry_delay_default spec_retry_delay_def)
  next
    case False
    have pw: "py_float_pow fl 2 n = Inr (power_int 2 n)"
      using near n0 n1 by (rule py_float_pow_two)
    have delay: "min (fl (fl (60 * power_int 2 n) * spec_multiplier reason)) 3600
         = min (60 * power_int 2 n * spec_multiplier reason) 3600"
      using near n0 by (rule delay_exact)
    have spec: "spec_retry_delay jitter n reason
                  = min (60 * power_int 2 n * spec_multiplier reason) 3600 * jitter"
      using False by (simp add: spec_retry_delay_def min.commute)
    have "calculate_retry_delay fl default_retry_config jitter n reason
            = Inr (py_int (fl (min (fl (fl (60 * power_int 2 n) * spec_multiplier reason)) 3600
                               * jitter)))"
      using False by (simp add: calculate_retry_delay_default pw)
    also have "\<dots> = Inr (py_int (fl (spec_retry_delay jitter n reason)))"
      by (simp only: delay spec)
    also have "\<dots> = Inr \<lfloor>fl (spec_retry_delay jitter n reason)\<rfloor>"
      using nonneg by (simp add: py_int_def)
    finally show ?thesis .
  qed
qed

text \<open>
  C7, as amended. With the default configuration and a rounding to a nearest double,
  \<open>rate_limited\<close> gives 300, \<open>server_error\<close> gives 900 and \<open>file_corrupted\<close> gives 0,
  whatever the retry count and the jitter. For every reason, a retry count from 0 to 1023
  and a jitter in \<open>[0.8, 1.2]\<close>, the delay is the integer part of the double nearest to
  \<open>x = min(3600, 60 * 2^retries * multiplier(reason)) * jitter\<close>, \<open>retries\<close> being the
  retry count: a whole number of seconds, at least the integer part of \<open>x\<close> and at most
  \<open>x\<close> rounded up.
\<close>

theorem calculate_retry_delay_truncated:
  assumes "rounds_to_nearest fl"
  shows "calculate_retry_delay fl default_retry_config jitter n RATE_LIMITED = Inr 300
   \<and> calculate_retry_delay fl default_retry_config jitter n SERVER_ERROR = Inr 900
   \<and> calculate_retry_delay fl default_retry_config jitter n FILE_CORRUPTED = Inr 0
   \<and> (0 \<le> n \<and> n < 1024 \<and> 4 / 5 \<le> jitter \<and> jitter \<le> 6 / 5 \<longrightarrow>
        calculate_retry_delay fl default_retry_config jitter n reason
          = Inr \<lfloor>fl (spec_retry_delay jitter n reason)\<rfloor>
        \<and> \<lfloor>spec_retry_delay jitter n reason\<rfloor> \<le> \<lfloor>fl (spec_retry_delay jitter n reason)\<rfloor>
        \<and> \<lfloor>fl (spec_retry_delay jitter n reason)\<rfloor> \<le> \<lceil>spec_retry_delay jitter n reason\<rceil>)"
proof -
  have general: "calculate_retry_delay fl default_retry_config jitter n reason
          = Inr \<lfloor>fl (spec_retry_delay jitter n reason)\<rfloor>
        \<and> \<lfloor>spec_retry_delay jitter n reason\<rfloor> \<le> \<lfloor>fl (spec_retry_delay jitter n reason)\<rfloor>
        \<and> \<lfloor>fl (spec_retry_delay jitter n reason)\<rfloor> \<le> \<lceil>spec_retry_delay jitter n reason\<rceil>"
    if n0: "0 \<le> n" and n1: "n < 1024" and lo: "4 / 5 \<le> jitter" and hi: "jitter \<le> 6 / 5"
  proof -
    have range: "0 \<le> spec_retry_delay jitter n reason"
      "spec_retry_delay jitter n reason \<le> 4320"
      using spec_retry_delay_range [OF n0 lo hi] by simp_all
    show ?thesis
      using calculate_retry_delay_general [OF assms n0 n1 lo hi]
        floor_of_rounded [OF assms range] by simp
  qed
  show ?thesis
    using general by (simp add: calculate_retry_delay_default)
qed

theorem calculate_retry_delay_truncated_witness:
  "rounds_to_nearest (\<lambda>x. x)
   \<and> calculate_retry_delay (\<lambda>x. x) default_retry_config 1 3 NETWORK_ERROR = Inr 720
   \<and> \<lfloor>spec_retry_delay 1 3 NETWORK_ERROR\<rfloor> = 720"
proof -
  have near: "rounds_to_nearest (\<lambda>x. x)"
    by (simp add: rounds_to_nearest_def)
  show ?thesis
    using near calculate_retry_delay_truncated [OF near, of 1 3 NETWORK_ERROR]
    by (simp add: spec_retry_delay_def)
qed

text \<open>
  The delay is a whole number of seconds, so it is not the scaled value itself: at retry
  count 0 a timeout with the jitter 0.8, the double \<open>3602879701896397 / 2^52\<close>, gives 57,
  where the scaled value is about 57.6, and no factor in \<open>[0.8, 1.2]\<close> takes 72 to 57.
\<close>

theorem calculate_retry_delay_counterexample:
  "\<not> (\<exists>fl. rounds_to_nearest fl
          \<and> calculate_retry_delay fl default_retry_config
                (3602879701896397 / 4503599627370496) 0 TIMEOUT \<noteq> Inr 57)
   \<and> \<not> (\<exists>j. 4 / 5 \<le> j \<and> j \<le> 6 / 5 \<and> real_of_int 57 = spec_retry_delay j 0 TIMEOUT)"
proof -
  have first: "calculate_retry_delay fl default_retry_config
                (3602879701896397 / 4503599627370496) 0 TIMEOUT = Inr 57"
    if near: "rounds_to_nearest fl" for fl
  proof -
    define x :: real where "x = spec_retry_delay (3602879701896397 / 4503599627370496) 0 TIMEOUT"
    have x: "x = 72 * (3602879701896397 / 4503599627370496)"
      by (simp add: x_def spec_retry_delay_def)
    have "is_double (real_of_int 115 * power_int 2 (- 1))"
      unfolding is_double_def by (intro exI [of _ 115] exI [of _ "- 1"]) simp
    then have d1: "is_double (115 / 2)"
      by simp
    have "is_double (real_of_int 231 * power_int 2 (- 2))"
      unfolding is_double_def by (intro exI [of _ 231] exI [of _ "- 2"]) simp
    then have d2: "is_double (231 / 4)"
      by simp
    have "115 / 2 \<le> fl x"
      using near d1 by (rule nearest_ge) (simp add: x)
    moreover have "fl x \<le> 231 / 4"
      using near d2 by (rule nearest_le) (simp add: x)
    ultimately have "\<lfloor>fl x\<rfloor> = 57"
      by (simp add: floor_eq_iff)
    moreover have "calculate_retry_delay fl default_retry_config
                (3602879701896397 / 4503599627370496) 0 TIMEOUT = Inr \<lfloor>fl x\<rfloor>"
      unfolding x_def by (rule calculate_retry_delay_general [OF near]) simp_all
    ultimately show ?thesis by simp
  qed
  have second: "\<not> (\<exists>j. 4 / 5 \<le> j \<and> j \<le> 6 / 5 \<and> real_of_int 57 = spec_retry_delay j 0 TIMEOUT)"
    by (simp add: spec_retry_delay_def)
  show ?thesis
    using first second by blast
qed




lemma loop_filter:
  "filter_smart_retry_loop failures now ds acc =
     acc @ filter (\<lambda>d. \<not> (5 < recent_failures failures now (indexer_id d) \<or> permanent_error d)) ds"
proof (induction ds arbitrary: acc)
  case Nil
  show ?case by simp
next
  case (Cons d ds)
  have perm: "(case error_message d of None \<Rightarrow> False
               | Some m \<Rightarrow> m \<noteq> [] \<and> any_pattern_in permanent_error_patterns (py_lower m))
              = permanent_error d"
  proof (cases "error_message d")
    case None
    then show ?thesis by (simp add: permanent_error_def)
  next
    case (Some m)
    have "[] \<notin> set permanent_error_patterns"
      by (simp add: permanent_error_patterns_def)
    then have "\<not> any_pattern_in permanent_error_patterns (py_lower [])"
      by (auto simp: any_pattern_in_iff py_lower_def)
    then show ?thesis
      using Some by (auto simp: permanent_error_def any_pattern_in_iff)
  qed
  have cnt: "(case failures (indexer_id d) of None \<Rightarrow> False
              | Some entries \<Rightarrow> length (filter (\<lambda>f. timestamp f > now - 3600) entries) > 5)
             = (5 < recent_failures failures now (indexer_id d))"
    by (simp add: recent_failures_def split: option.split)
  show ?case
    unfolding filter_smart_retry_loop.simps perm cnt
    by (simp add: Cons.IH)
qed


text \<open>
  C3, as amended. \<open>_filter_smart_retry\<close> keeps, in their order, exactly the downloads
  that are not excluded, and a download is excluded exactly when its indexer has more
  than 5 recorded failures (6 or more) with a timestamp within the last hour, or its error
  message contains, in lower case, one of \<open>404\<close>, \<open>not found\<close>, \<open>removed\<close>,
  \<open>deleted\<close>, \<open>unavailable\<close>.
\<close>

theorem filter_smart_retry_rule:
  "filter_smart_retry failures now downloads =
     filter (\<lambda>d. \<not> (5 < recent_failures failures now (indexer_id d) \<or> permanent_error d))
       downloads"
  by (simp add: filter_smart_retry_def loop_filter)

text \<open>
  An indexer with exactly 5 failures in the last hour: its failed download, with no error
  message, passes the filter.
\<close>

theorem filter_smart_retry_counterexample:
  "recent_failures
      [7 \<mapsto> [\<lparr>timestamp = 3000, error = ''HTTP 500: Internal Server Error''\<rparr>,
              \<lparr>timestamp = 3001, error = ''HTTP 500: Internal Server Error''\<rparr>,
              \<lparr>timestamp = 3002, error = ''HTTP 500: Internal Server Error''\<rparr>,
              \<lparr>timestamp = 3003, error = ''HTTP 500: Internal Server Error''\<rparr>,
              \<lparr>timestamp = 3004, error = ''HTTP 500: Internal Server Error''\<rparr>]]
      4000 7 = 5
   \<and> filter_smart_retry
      [7 \<mapsto> [\<lparr>timestamp = 3000, error = ''HTTP 500: Internal Server Error''\<rparr>,
              \<lparr>timestamp = 3001, error = ''HTTP 500: Internal Server Error''\<rparr>,
              \<lparr>timestamp = 3002, error = ''HTTP 500: Internal Server Error''\<rparr>,
              \<lparr>timestamp = 3003, error = ''HTTP 500: Internal Server Error''\<rparr>,
              \<lparr>timestamp = 3004, error = ''HTTP 500: Internal Server Error''\<rparr>]]
      4000
      [\<lparr>task_id = 1, indexer_id = 7, status = QueueStatus.FAILED, progress_percentage = 40,
        download_path = None, retry_count = 1, max_retries = 3, error_message = None\<rparr>]
     = [\<lparr>task_id = 1, indexer_id = 7, status = QueueStatus.FAILED, progress_percentage = 40,
         download_path = None, retry_count = 1, max_retries = 3, error_message = None\<rparr>]"
  by (simp add: recent_failures_def filter_smart_retry_def)

text \<open>
  C5, as amended. When the \<open>try\<close> block of a download is cancelled, and the status
  update and the removal of the file succeed, the temp file is gone, the row is marked
  \<open>cancelled\<close> with its retry count unchanged, and the id has left
  \<open>active_downloads\<close>; a download whose \<open>try\<close> block has run to its end is
  \<open>completed\<close>.
\<close>

theorem cancelled_download:
  assumes "db_ok env" and "unlink_ok env"
  shows "\<not> temp_exists (download_file env now Cancelled download st)
    \<and> status (row (download_file env now Cancelled download st)) = CANCELLED
    \<and> retry_count (row (download_file env now Cancelled download st)) = retry_count (row st)
    \<and> task_id download \<notin> active_downloads (download_file env now Cancelled download st)
    \<and> status (row (download_file env now (Returned final_path) download st)) = COMPLETED"
  using assms by (simp add: download_file_def update_download_status_def)

text \<open>
  A download in progress that is cancelled: its row is \<open>cancelled\<close>, not \<open>pending\<close>.
\<close>

theorem cancelled_download_counterexample:
  "status (row (download_file \<lparr>db_ok = True, unlink_ok = True\<rparr> 0 Cancelled
      \<lparr>task_id = 1, indexer_id = 7, status = DOWNLOADING, progress_percentage = 40,
       download_path = None, retry_count = 0, max_retries = 3, error_message = None\<rparr>
      \<lparr>row = \<lparr>task_id = 1, indexer_id = 7, status = DOWNLOADING, progress_percentage = 40,
              download_path = None, retry_count = 0, max_retries = 3, error_message = None\<rparr>,
       temp_exists = True, failure_log = Map.empty, active_downloads = {1}\<rparr>)) = CANCELLED
   \<and> CANCELLED \<noteq> PENDING"
  by (simp add: download_file_def update_download_status_def)

theorem cancelled_download_witness:
  "\<not> temp_exists (download_file \<lparr>db_ok = True, unlink_ok = True\<rparr> 0 Cancelled
      \<lparr>task_id = 1, indexer_id = 7, status = DOWNLOADING, progress_percentage = 40,
       download_path = None, retry_count = 0, max_retries = 3, error_message = None\<rparr>
      \<lparr>row = \<lparr>task_id = 1, indexer_id = 7, status = DOWNLOADING, progress_percentage = 40,
              download_path = None, retry_count = 0, max_retries = 3, error_message = None\<rparr>,
       temp_exists = True, failure_log = Map.empty, active_downloads = {1}\<rparr>)"
  using cancelled_download [of "\<lparr>db_ok = True, unlink_ok = True\<rparr>" 0
      "\<lparr>task_id = 1, indexer_id = 7, status = DOWNLOADING, progress_percentage = 40,
        download_path = None, retry_count = 0, max_retries = 3, error_message = None\<rparr>"
      "\<lparr>row = \<lparr>task_id = 1, indexer_id = 7, status = DOWNLOADING, progress_percentage = 40,
              download_path = None, retry_count = 0, max_retries = 3, error_message = None\<rparr>,
       temp_exists = True, failure_log = Map.empty, active_downloads = {1}\<rparr>"]
  by simp

text \<open>
  C8. The invariant \<open>retry_count \<le> max_retries\<close> is not preserved. The handler of
  \<open>_download_file\<close> compares \<open>retry_count\<close> and \<open>max_retries\<close> of the task object, read
  from the row when the download was fetched, and the statement then increments the
  \<open>retry_count\<close> of the row, whatever it holds by then. A pending row with
  \<open>retry_count = 2\<close> and \<open>max_retries = 3\<close> is fetched and started; the update to
  \<open>downloading\<close> fails and is only logged, so the row is still pending at the next pass
  of the queue loop and is fetched and started again, with the same values. Both downloads
  fail: the first failure takes the row to 3, and the second, with \<open>retry_count + 1 = 4\<close>
  above \<open>max_retries\<close>, takes it to 4.
\<close>

theorem retry_count_exceeds_max_retries:
  "retry_count
      \<lparr>task_id = 1, indexer_id = 7, status = PENDING, progress_percentage = 0,
       download_path = None, retry_count = 2, max_retries = 3, error_message = None\<rparr>
     \<le> max_retries
      \<lparr>task_id = 1, indexer_id = 7, status = PENDING, progress_percentage = 0,
       download_path = None, retry_count = 2, max_retries = 3, error_message = None\<rparr>
   \<and> get_pending_downloads True
       \<lparr>row = \<lparr>task_id = 1, indexer_id = 7, status = PENDING, progress_percentage = 0,
               download_path = None, retry_count = 2, max_retries = 3, error_message = None\<rparr>,
        temp_exists = False, failure_log = Map.empty, active_downloads = {}\<rparr>
     = [\<lparr>task_id = 1, indexer_id = 7, status = PENDING, progress_percentage = 0,
         download_path = None, retry_count = 2, max_retries = 3, error_message = None\<rparr>]
   \<and> get_pending_downloads True
       (start_download \<lparr>db_ok = False, unlink_ok = True\<rparr>
          \<lparr>task_id = 1, indexer_id = 7, status = PENDING, progress_percentage = 0,
           download_path = None, retry_count = 2, max_retries = 3, error_message = None\<rparr>
          \<lparr>row = \<lparr>task_id = 1, indexer_id = 7, status = PENDING, progress_percentage = 0,
                  download_path = None, retry_count = 2, max_retries = 3,
                  error_message = None\<rparr>,
           temp_exists = False, failure_log = Map.empty, active_downloads = {}\<rparr>)
     = [\<lparr>task_id = 1, indexer_id = 7, status = PENDING, progress_percentage = 0,
         download_path = None, retry_count = 2, max_retries = 3, error_message = None\<rparr>]
   \<and> row (download_file \<lparr>db_ok = True, unlink_ok = True\<rparr> 100
          (Raised ''HTTP 503: Service Unavailable'')
          \<lparr>task_id = 1, indexer_id = 7, status = PENDING, progress_percentage = 0,
           download_path = None, retry_count = 2, max_retries = 3, error_message = None\<rparr>
          (start_download \<lparr>db_ok = True, unlink_ok = True\<rparr>
             \<lparr>task_id = 1, indexer_id = 7, status = PENDING, progress_percentage = 0,
              download_path = None, retry_count = 2, max_retries = 3, error_message = None\<rparr>
             (start_download \<lparr>db_ok = False, unlink_ok = True\<rparr>
                \<lparr>task_id = 1, indexer_id = 7, status = PENDING, progress_percentage = 0,
                 download_path = None, retry_count = 2, max_retries = 3,
                 error_message = None\<rparr>
                \<lparr>row = \<lparr>task_id = 1, indexer_id = 7, status = PENDING,
                        progress_percentage = 0, download_path = None, retry_count = 2,
                        max_retries = 3, error_message = None\<rparr>,
                 temp_exists = False, failure_log = Map.empty, active_downloads = {}\<rparr>)))
     = \<lparr>task_id = 1, indexer_id = 7, status = QueueStatus.FAILED, progress_percentage = 0,
        download_path = None, retry_count = 3, max_retries = 3,
        error_message = Some ''HTTP 503: Service Unavailable''\<rparr>
   \<and> row (download_file \<lparr>db_ok = True, unlink_ok = True\<rparr> 101
          (Raised ''HTTP 503: Service Unavailable'')
          \<lparr>task_id = 1, indexer_id = 7, status = PENDING, progress_percentage = 0,
           download_path = None, retry_count = 2, max_retries = 3, error_message = None\<rparr>
          (download_file \<lparr>db_ok = True, unlink_ok = True\<rparr> 100
             (Raised ''HTTP 503: Service Unavailable'')
             \<lparr>task_id = 1, indexer_id = 7, status = PENDING, progress_percentage = 0,
              download_path = None, retry_count = 2, max_retries = 3, error_message = None\<rparr>
             (start_download \<lparr>db_ok = True, unlink_ok = True\<rparr>
                \<lparr>task_id = 1, indexer_id = 7, status = PENDING, progress_percentage = 0,
                 download_path = None, retry_count = 2, max_retries = 3,
                 error_message = None\<rparr>
                (start_download \<lparr>db_ok = False, unlink_ok = True\<rparr>
                   \<lparr>task_id = 1, indexer_id = 7, status = PENDING, progress_percentage = 0,
                    download_path = None, retry_count = 2, max_retries = 3,
                    error_message = None\<rparr>
                   \<lparr>row = \<lparr>task_id = 1, indexer_id = 7, status = PENDING,
                           progress_percentage = 0, download_path = None, retry_count = 2,
                           max_retries = 3, error_message = None\<rparr>,
                    temp_exists = False, failure_log = Map.empty,
                    active_downloads = {}\<rparr>))))
     = \<lparr>task_id = 1, indexer_id = 7, status = QueueStatus.FAILED, progress_percentage = 0,
        download_path = None, retry_count = 4, max_retries = 3,
        error_message = Some ''HTTP 503: Service Unavailable''\<rparr>"
  by (simp add: get_pending_downloads_def start_download_def download_file_def
        update_download_status_def)


lemma is_space_blank: "is_space CHR '' ''"
  by (simp add: is_space_def)

lemma not_upper_lower_char: "\<not> is_upper (lower_char c)"
  by (auto simp: lower_char_def is_upper_def)

lemma lower_char_fixed: "\<not> is_upper c \<Longrightarrow> lower_char c = c"
  by (simp add: lower_char_def)

lemma py_lower_fixed: "\<forall>c \<in> set s. \<not> is_upper c \<Longrightarrow> py_lower s = s"
  by (induction s) (simp_all add: py_lower_def lower_char_fixed)

lemma not_lower_upper_char: "\<not> is_lower (upper_char c)"
  by (auto simp: upper_char_def is_lower_def)

lemma upper_char_idem: "upper_char (upper_char c) = upper_char c"
  using not_lower_upper_char [of c] by (simp add: upper_char_def [of "upper_char c"])

lemma upper_char_keeps:
  "\<not> (c = CHR ''-'' \<or> is_space c) \<Longrightarrow> \<not> (upper_char c = CHR ''-'' \<or> is_space (upper_char c))"
proof (cases "is_lower c")
  case False
  assume "\<not> (c = CHR ''-'' \<or> is_space c)"
  then show ?thesis using False by (simp add: upper_char_def)
next
  case True
  then have "is_upper (upper_char c)"
    by (auto simp: upper_char_def is_lower_def is_upper_def)
  then have "65 \<le> (of_char (upper_char c) :: nat)"
    by (simp add: is_upper_def)
  moreover have "(of_char CHR ''-'' :: nat) = 45"
    by simp
  ultimately show ?thesis
    by (auto simp: is_space_def)
qed

lemma collapsed_Cons:
  "collapsed (c # x) \<longleftrightarrow>
     (is_space c \<longrightarrow> c = CHR '' '' \<and> (x = [] \<or> \<not> is_space (hd x))) \<and> collapsed x"
  by (cases x) auto

lemma dropWhile_head: "dropWhile P xs = [] \<or> \<not> P (hd (dropWhile P xs))"
  using hd_dropWhile [of P xs] by blast

lemma collapse_ws_head: "x = [] \<or> \<not> is_space (hd x) \<Longrightarrow>
  collapse_ws x = [] \<or> \<not> is_space (hd (collapse_ws x))"
  by (cases x) auto

lemma collapsed_collapse_ws: "collapsed (collapse_ws s)"
proof (induction s rule: collapse_ws.induct)
  case 1
  show ?case by simp
next
  case (2 c cs)
  show ?case
  proof (cases "is_space c")
    case True
    have "collapse_ws (dropWhile is_space cs) = []
          \<or> \<not> is_space (hd (collapse_ws (dropWhile is_space cs)))"
      by (rule collapse_ws_head) (rule dropWhile_head)
    then show ?thesis
      using True 2 by (simp add: collapsed_Cons)
  next
    case False
    then show ?thesis
      using 2 by (simp add: collapsed_Cons)
  qed
qed

lemma dropWhile_self: "x = [] \<or> \<not> P (hd x) \<Longrightarrow> dropWhile P x = x"
  by (cases x) auto

lemma collapse_ws_fixed: "collapsed s \<Longrightarrow> collapse_ws s = s"
proof (induction s)
  case Nil
  show ?case by simp
next
  case (Cons c x)
  then have x: "collapse_ws x = x" and
    c: "is_space c \<longrightarrow> c = CHR '' '' \<and> (x = [] \<or> \<not> is_space (hd x))"
    by (simp_all add: collapsed_Cons)
  show ?case
  proof (cases "is_space c")
    case True
    then have "dropWhile is_space x = x"
      using c dropWhile_self by blast
    then show ?thesis
      using True c x by simp
  next
    case False
    then show ?thesis
      using x by simp
  qed
qed

lemma collapsed_append: "collapsed (xs @ ys) \<Longrightarrow> collapsed xs \<and> collapsed ys"
proof (induction xs)
  case Nil
  then show ?case by simp
next
  case (Cons c xs)
  then have tail: "collapsed (xs @ ys)"
    and c: "is_space c \<longrightarrow> c = CHR '' '' \<and> (xs @ ys = [] \<or> \<not> is_space (hd (xs @ ys)))"
    by (simp_all add: collapsed_Cons)
  have "is_space c \<longrightarrow> c = CHR '' '' \<and> (xs = [] \<or> \<not> is_space (hd xs))"
    using c by (cases xs) auto
  then show ?case
    using Cons.IH [OF tail] by (simp add: collapsed_Cons)
qed

lemma py_strip_infix:
  "s = takeWhile is_space s @ py_strip s @ rev (takeWhile is_space (rev (dropWhile is_space s)))"
proof -
  have "dropWhile is_space s =
          rev (takeWhile is_space (rev (dropWhile is_space s))
               @ dropWhile is_space (rev (dropWhile is_space s)))"
    by simp
  then have "dropWhile is_space s =
          py_strip s @ rev (takeWhile is_space (rev (dropWhile is_space s)))"
    unfolding py_strip_def rev_append .
  then have "takeWhile is_space s @ dropWhile is_space s =
          takeWhile is_space s @ py_strip s
            @ rev (takeWhile is_space (rev (dropWhile is_space s)))"
    by simp
  then show ?thesis by simp
qed

lemma collapsed_py_strip: "collapsed s \<Longrightarrow> collapsed (py_strip s)"
proof -
  assume "collapsed s"
  then have "collapsed (takeWhile is_space s @ py_strip s
            @ rev (takeWhile is_space (rev (dropWhile is_space s))))"
    using py_strip_infix [of s] by simp
  then show ?thesis
    using collapsed_append by blast
qed

lemma py_strip_head: "py_strip s = [] \<or> \<not> is_space (hd (py_strip s))"
proof (cases "py_strip s = []")
  case True
  then show ?thesis by simp
next
  case False
  have split: "dropWhile is_space s =
          py_strip s @ rev (takeWhile is_space (rev (dropWhile is_space s)))"
    using py_strip_infix [of s]
    by (metis append_eq_append_conv takeWhile_dropWhile_id)
  then have "hd (dropWhile is_space s) = hd (py_strip s)"
    using False by (metis hd_append2)
  moreover have "dropWhile is_space s \<noteq> []"
    using split False by (metis append_is_Nil_conv)
  ultimately show ?thesis
    using hd_dropWhile [of is_space s] by simp
qed

lemma py_strip_idem: "py_strip (py_strip s) = py_strip s"
proof -
  have "dropWhile is_space (py_strip s) = py_strip s"
    by (rule dropWhile_self) (rule py_strip_head)
  then have "py_strip (py_strip s) = rev (dropWhile is_space (rev (py_strip s)))"
    by (simp add: py_strip_def [of "py_strip s"])
  also have "\<dots> = rev (dropWhile is_space (dropWhile is_space (rev (dropWhile is_space s))))"
    by (simp add: py_strip_def)
  also have "\<dots> = py_strip s"
    by (simp add: py_strip_def)
  finally show ?thesis .
qed

lemma strip_collapse_fixed:
  "py_strip (collapse_ws (py_strip (collapse_ws s))) = py_strip (collapse_ws s)"
proof -
  have "collapsed (py_strip (collapse_ws s))"
    by (rule collapsed_py_strip) (rule collapsed_collapse_ws)
  then have "collapse_ws (py_strip (collapse_ws s)) = py_strip (collapse_ws s)"
    by (rule collapse_ws_fixed)
  then show ?thesis
    by (simp add: py_strip_idem)
qed

lemma set_collapse_ws: "set (collapse_ws s) \<subseteq> insert CHR '' '' (set s)"
proof (induction s rule: collapse_ws.induct)
  case 1
  show ?case by simp
next
  case (2 c cs)
  have "set (dropWhile is_space cs) \<subseteq> set cs"
    by (auto dest: set_dropWhileD)
  then show ?case
    using 2 by (cases "is_space c") auto
qed

lemma set_py_strip: "set (py_strip s) \<subseteq> set s"
proof
  fix x
  assume "x \<in> set (py_strip s)"
  then have "x \<in> set (dropWhile is_space (rev (dropWhile is_space s)))"
    by (simp add: py_strip_def)
  then have "x \<in> set (rev (dropWhile is_space s))"
    by (rule set_dropWhileD)
  then have "x \<in> set (dropWhile is_space s)"
    by simp
  then show "x \<in> set s"
    by (rule set_dropWhileD)
qed

lemma isbn_kept:
  "filter (\<lambda>c. \<not> (c = CHR ''-'' \<or> is_space c))
      (map upper_char (filter (\<lambda>c. \<not> (c = CHR ''-'' \<or> is_space c)) x))
   = map upper_char (filter (\<lambda>c. \<not> (c = CHR ''-'' \<or> is_space c)) x)"
proof -
  have "\<forall>c \<in> set (map upper_char (filter (\<lambda>c. \<not> (c = CHR ''-'' \<or> is_space c)) x)).
          \<not> (c = CHR ''-'' \<or> is_space c)"
    using upper_char_keeps by fastforce
  then show ?thesis
    by (simp only: filter_id_conv)
qed

lemma py_upper_idem: "py_upper (py_upper s) = py_upper s"
  by (simp add: py_upper_def upper_char_idem)

lemma normalize_isbn_idem: "normalize_isbn (normalize_isbn s) = normalize_isbn s"
proof (cases "s = []")
  case True
  then show ?thesis by (simp add: normalize_isbn_def)
next
  case False
  define x where "x = py_upper (filter (\<lambda>c. \<not> (c = CHR ''-'' \<or> is_space c)) s)"
  have first: "normalize_isbn s = x"
    using False by (simp add: normalize_isbn_def x_def)
  have "filter (\<lambda>c. \<not> (c = CHR ''-'' \<or> is_space c)) x = x"
    unfolding x_def py_upper_def by (rule isbn_kept)
  then have "py_upper (filter (\<lambda>c. \<not> (c = CHR ''-'' \<or> is_space c)) x) = x"
    by (simp add: x_def py_upper_idem)
  then have "normalize_isbn x = x"
    by (cases "x = []") (simp_all add: normalize_isbn_def)
  then show ?thesis
    using first by simp
qed

lemma find_year_shape: "find_year s = [] \<or> (length (find_year s) = 4 \<and> list_all is_digit (find_year s))"
proof (induction s)
  case Nil
  show ?case by simp
next
  case (Cons c cs)
  show ?case
  proof (cases "length (c # cs) \<ge> 4 \<and> list_all is_digit (take 4 (c # cs))")
    case True
    then have "find_year (c # cs) = take 4 (c # cs)"
      by (subst find_year.simps) (rule if_P)
    moreover have "length (take 4 (c # cs)) = 4"
      using True by simp
    ultimately show ?thesis
      using True by simp
  next
    case False
    then have "find_year (c # cs) = find_year cs"
      by (subst find_year.simps) (rule if_not_P)
    then show ?thesis
      using Cons.IH by simp
  qed
qed

lemma find_year_fixed: "length r = 4 \<Longrightarrow> list_all is_digit r \<Longrightarrow> find_year r = r"
proof -
  assume len: "length r = 4" and dig: "list_all is_digit r"
  then obtain c cs where r: "r = c # cs"
    by (cases r) auto
  have "take 4 (c # cs) = c # cs"
    using len r by simp
  then have "find_year (c # cs) = c # cs"
    using len dig r by (subst find_year.simps) simp
  then show ?thesis
    using r by simp
qed

lemma normalize_date_idem: "normalize_date (normalize_date s) = normalize_date s"
proof (cases "s = []")
  case True
  then show ?thesis by (simp add: normalize_date_def)
next
  case False
  then have first: "normalize_date s = find_year s"
    by (simp add: normalize_date_def)
  show ?thesis
  proof (cases "find_year s = []")
    case True
    then show ?thesis
      using first by (simp add: normalize_date_def)
  next
    case nonempty: False
    then have "length (find_year s) = 4" and "list_all is_digit (find_year s)"
      using find_year_shape [of s] by blast+
    then have "find_year (find_year s) = find_year s"
      by (rule find_year_fixed)
    then show ?thesis
      using first nonempty by (simp add: normalize_date_def)
  qed
qed

lemma author_chars:
  "\<forall>c \<in> set (py_strip (collapse_ws
        (filter (\<lambda>c. is_word c \<or> is_space c \<or> c = CHR ''.'') (py_lower a)))).
     (is_word c \<or> is_space c \<or> c = CHR ''.'') \<and> \<not> is_upper c"
proof
  fix c
  define kept where "kept = filter (\<lambda>c. is_word c \<or> is_space c \<or> c = CHR ''.'') (py_lower a)"
  assume "c \<in> set (py_strip (collapse_ws
        (filter (\<lambda>c. is_word c \<or> is_space c \<or> c = CHR ''.'') (py_lower a))))"
  then have "c \<in> set (py_strip (collapse_ws kept))"
    by (simp only: kept_def)
  then have "c \<in> set (collapse_ws kept)"
    using set_py_strip by blast
  then have "c = CHR '' '' \<or> c \<in> set kept"
    using set_collapse_ws [of kept] by blast
  then show "(is_word c \<or> is_space c \<or> c = CHR ''.'') \<and> \<not> is_upper c"
  proof
    assume "c = CHR '' ''"
    then show ?thesis
      by (simp add: is_space_def is_upper_def)
  next
    assume "c \<in> set kept"
    then have k: "is_word c \<or> is_space c \<or> c = CHR ''.''" and "c \<in> set (py_lower a)"
      by (simp_all add: kept_def)
    then obtain d where "c = lower_char d"
      by (auto simp: py_lower_def)
    then show ?thesis
      using k not_upper_lower_char by blast
  qed
qed

lemma comma_dropped: "\<not> (is_word CHR '','' \<or> is_space CHR '','' \<or> CHR '','' = CHR ''.'')"
  by (simp add: is_word_def is_space_def is_upper_def is_lower_def is_digit_def)

lemma normalize_author_eq:
  "normalize_author a =
     (if a = [] then []
      else py_strip (collapse_ws (filter (\<lambda>c. is_word c \<or> is_space c \<or> c = CHR ''.'') (py_lower a))))"
proof -
  have "CHR '','' \<notin> set (py_strip (collapse_ws
          (filter (\<lambda>c. is_word c \<or> is_space c \<or> c = CHR ''.'') (py_lower a))))"
    using author_chars [of a] comma_dropped by blast
  then show ?thesis
    unfolding normalize_author_def nfkd_def Let_def by (simp only: if_False)
qed

lemma normalize_author_Nil: "normalize_author [] = []"
  by (simp add: normalize_author_def)

lemma normalize_author_idem: "normalize_author (normalize_author s) = normalize_author s"
proof (cases "s = []")
  case True
  then show ?thesis by (simp only: normalize_author_Nil)
next
  case False
  define n where
    "n = py_strip (collapse_ws (filter (\<lambda>c. is_word c \<or> is_space c \<or> c = CHR ''.'') (py_lower s)))"
  have chars: "\<forall>c \<in> set n. (is_word c \<or> is_space c \<or> c = CHR ''.'') \<and> \<not> is_upper c"
    unfolding n_def by (rule author_chars)
  have low: "py_lower n = n"
    using chars by (simp add: py_lower_fixed)
  have kept: "filter (\<lambda>c. is_word c \<or> is_space c \<or> c = CHR ''.'') n = n"
    using chars by (simp only: filter_id_conv) blast
  have nf: "py_strip (collapse_ws n) = n"
    unfolding n_def by (rule strip_collapse_fixed)
  have first: "normalize_author s = n"
    using False by (simp only: normalize_author_eq n_def if_False)
  have "normalize_author n = n"
  proof (cases "n = []")
    case True
    then show ?thesis by (simp only: normalize_author_Nil)
  next
    case nonempty: False
    have "normalize_author n =
        py_strip (collapse_ws (filter (\<lambda>c. is_word c \<or> is_space c \<or> c = CHR ''.'') (py_lower n)))"
      using nonempty by (simp only: normalize_author_eq if_False)
    then show ?thesis
      by (simp only: low kept nf)
  qed
  then show ?thesis
    by (simp only: first)
qed

text \<open>
  C2, as amended. For every non-empty string \<open>s\<close> the similarity of \<open>s\<close> with itself is
  1; the similarity of the empty string with any string, the empty string included, and
  of any string with the empty string, is 0. In these cases the cache is neither read nor
  written, and the ratio of \<open>difflib\<close> is not computed.
\<close>

theorem string_similarity_edges:
  "(s \<noteq> [] \<longrightarrow> calculate_string_similarity seq_ratio cache_size cache s s = (1, cache))
   \<and> calculate_string_similarity seq_ratio cache_size cache [] s = (0, cache)
   \<and> calculate_string_similarity seq_ratio cache_size cache s [] = (0, cache)"
  by (simp add: calculate_string_similarity_def)

text \<open>The empty string against itself: the similarity is 0, not 1.\<close>

theorem string_similarity_counterexample:
  "fst (calculate_string_similarity (\<lambda>a b. 0) 10000 [] [] []) = 0
   \<and> fst (calculate_string_similarity (\<lambda>a b. 0) 10000 [] [] []) \<noteq> 1"
  by (simp add: calculate_string_similarity_def)

theorem string_similarity_edges_witness:
  "calculate_string_similarity (\<lambda>a b. 0) 10000 [] ''dune'' ''dune'' = (1, [])
   \<and> calculate_string_similarity (\<lambda>a b. 0) 10000 [] [] ''dune'' = (0, [])"
  using string_similarity_edges [of "''dune''" "\<lambda>a b. 0" 10000 "[]"]
  by simp

lemma strip_pattern_prefix: "\<exists>r. x = strip_pattern m x @ r"
proof (induction x)
  case Nil
  show ?case by simp
next
  case (Cons c cs)
  then obtain r where r: "cs = strip_pattern m cs @ r"
    by blast
  show ?case
  proof (cases "m (c # cs)")
    case True
    then show ?thesis by simp
  next
    case False
    then have "c # cs = strip_pattern m (c # cs) @ r"
      using r by simp
    then show ?thesis by blast
  qed
qed

lemma strip_pattern_empty: "strip_pattern m x = [] \<longleftrightarrow> x = [] \<or> m x"
  by (cases x) simp_all

lemma strip_pattern_last:
  assumes absorb: "\<And>w r. is_space w \<Longrightarrow> m (w # r) = m r"
  shows "x = [] \<or> \<not> is_space (last x)
         \<Longrightarrow> strip_pattern m x = [] \<or> \<not> is_space (last (strip_pattern m x))"
proof (induction x)
  case Nil
  show ?case by simp
next
  case (Cons c cs)
  show ?case
  proof (cases "m (c # cs)")
    case True
    then show ?thesis by simp
  next
    case False
    then have step: "strip_pattern m (c # cs) = c # strip_pattern m cs"
      by simp
    show ?thesis
    proof (cases "strip_pattern m cs = []")
      case True
      then have "cs = [] \<or> m cs"
        by (simp add: strip_pattern_empty)
      then have "\<not> is_space c"
      proof
        assume "cs = []"
        then show ?thesis using Cons.prems by simp
      next
        assume "m cs"
        then show ?thesis using False absorb [of c cs] by blast
      qed
      then show ?thesis
        using step True by simp
    next
      case nonempty: False
      then have "cs \<noteq> []"
        by (auto simp: strip_pattern_empty)
      then have "cs = [] \<or> \<not> is_space (last cs)"
        using Cons.prems by simp
      then have "\<not> is_space (last (strip_pattern m cs))"
        using Cons.IH nonempty by blast
      then show ?thesis
        using step nonempty by simp
    qed
  qed
qed

lemma numbered_absorbs: "is_space w \<Longrightarrow> matches_numbered_edition (w # r) = matches_numbered_edition r"
  by (simp add: matches_numbered_edition_def)

lemma word_absorbs: "is_space w \<Longrightarrow> matches_word_edition word (w # r) = matches_word_edition word r"
  by (simp add: matches_word_edition_def)

lemma py_strip_last: "py_strip x = [] \<or> \<not> is_space (last (py_strip x))"
proof -
  have "dropWhile is_space (rev (dropWhile is_space x)) = []
        \<or> \<not> is_space (hd (dropWhile is_space (rev (dropWhile is_space x))))"
    by (rule dropWhile_head)
  then show ?thesis
    by (auto simp: py_strip_def last_rev)
qed

lemma py_strip_fixed:
  assumes "x = [] \<or> \<not> is_space (hd x)" and "x = [] \<or> \<not> is_space (last x)"
  shows "py_strip x = x"
proof -
  have front: "dropWhile is_space x = x"
    using assms(1) by (rule dropWhile_self)
  have "rev x = [] \<or> \<not> is_space (hd (rev x))"
    using assms(2) by (auto simp: hd_rev)
  then have "dropWhile is_space (rev x) = rev x"
    by (rule dropWhile_self)
  then show ?thesis
    by (simp add: py_strip_def front)
qed


lemma normalize_title_compute_eq: "normalize_title_compute s = strip_editions (title_base s)"
  by (simp add: normalize_title_compute_def strip_editions_def title_base_def Let_def)

lemma strip_editions_prefix: "\<exists>r. x = strip_editions x @ r"
proof -
  define e1 where "e1 = strip_pattern matches_numbered_edition x"
  define e2 where "e2 = strip_pattern (matches_word_edition ''revised'') e1"
  define e3 where "e3 = strip_pattern (matches_word_edition ''updated'') e2"
  define e4 where "e4 = strip_pattern (matches_word_edition ''expanded'') e3"
  obtain r1 where r1: "x = e1 @ r1"
    unfolding e1_def using strip_pattern_prefix by blast
  obtain r2 where r2: "e1 = e2 @ r2"
    unfolding e2_def using strip_pattern_prefix by blast
  obtain r3 where r3: "e2 = e3 @ r3"
    unfolding e3_def using strip_pattern_prefix by blast
  obtain r4 where r4: "e3 = e4 @ r4"
    unfolding e4_def using strip_pattern_prefix by blast
  have whole: "x = e4 @ (r4 @ r3 @ r2 @ r1)"
    using r1 r2 r3 r4 by simp
  have "strip_editions x = e4"
    by (simp add: strip_editions_def e1_def e2_def e3_def e4_def)
  then have "x = strip_editions x @ (r4 @ r3 @ r2 @ r1)"
    using whole by simp
  then show ?thesis ..
qed

lemma strip_editions_last:
  assumes "x = [] \<or> \<not> is_space (last x)"
  shows "strip_editions x = [] \<or> \<not> is_space (last (strip_editions x))"
proof -
  define e1 where "e1 = strip_pattern matches_numbered_edition x"
  define e2 where "e2 = strip_pattern (matches_word_edition ''revised'') e1"
  define e3 where "e3 = strip_pattern (matches_word_edition ''updated'') e2"
  have l1: "e1 = [] \<or> \<not> is_space (last e1)"
    unfolding e1_def using numbered_absorbs assms by (rule strip_pattern_last)
  have l2: "e2 = [] \<or> \<not> is_space (last e2)"
    unfolding e2_def using word_absorbs l1 by (rule strip_pattern_last)
  have l3: "e3 = [] \<or> \<not> is_space (last e3)"
    unfolding e3_def using word_absorbs l2 by (rule strip_pattern_last)
  have "strip_pattern (matches_word_edition ''expanded'') e3 = []
        \<or> \<not> is_space (last (strip_pattern (matches_word_edition ''expanded'') e3))"
    using word_absorbs l3 by (rule strip_pattern_last)
  then show ?thesis
    by (simp add: strip_editions_def e1_def e2_def e3_def)
qed

lemma set_strip_article: "set (strip_article as x) \<subseteq> set x"
proof (induction as)
  case Nil
  show ?case by simp
next
  case (Cons a as)
  have "set (drop (length a) x) \<subseteq> set x"
    by (rule set_drop_subset)
  then show ?case
    using Cons.IH by simp
qed

lemma title_base_chars:
  "\<forall>c \<in> set (title_base s). (is_word c \<or> is_space c) \<and> \<not> is_upper c"
proof
  fix c
  define kept where
    "kept = filter (\<lambda>c. is_word c \<or> is_space c) (strip_article articles (py_lower (nfkd s)))"
  assume "c \<in> set (title_base s)"
  then have "c \<in> set (py_strip (collapse_ws kept))"
    by (simp only: title_base_def kept_def)
  then have "c \<in> set (collapse_ws kept)"
    using set_py_strip by blast
  then have "c = CHR '' '' \<or> c \<in> set kept"
    using set_collapse_ws [of kept] by blast
  then show "(is_word c \<or> is_space c) \<and> \<not> is_upper c"
  proof
    assume "c = CHR '' ''"
    then show ?thesis
      by (simp add: is_space_def is_upper_def)
  next
    assume "c \<in> set kept"
    then have k: "is_word c \<or> is_space c"
      and "c \<in> set (strip_article articles (py_lower (nfkd s)))"
      by (simp_all add: kept_def)
    then have "c \<in> set (py_lower (nfkd s))"
      using set_strip_article by blast
    then obtain d where "c = lower_char d"
      by (auto simp: py_lower_def)
    then show ?thesis
      using k not_upper_lower_char by blast
  qed
qed

lemma normalize_title_compute_fixed:
  assumes t: "t = normalize_title_compute s"
    and no_article: "strip_article articles t = t"
    and no_edition: "strip_editions t = t"
  shows "normalize_title_compute t = t"
proof -
  obtain r where r: "title_base s = t @ r"
    using strip_editions_prefix [of "title_base s"] t normalize_title_compute_eq by metis
  have chars: "\<forall>c \<in> set t. (is_word c \<or> is_space c) \<and> \<not> is_upper c"
    using title_base_chars [of s] r by simp
  have low: "py_lower (nfkd t) = t"
    using chars by (simp add: nfkd_def py_lower_fixed)
  have kept: "filter (\<lambda>c. is_word c \<or> is_space c) t = t"
    using chars by (simp only: filter_id_conv) blast
  have "collapsed (title_base s)"
    unfolding title_base_def by (rule collapsed_py_strip) (rule collapsed_collapse_ws)
  then have "collapsed t"
    using r collapsed_append by metis
  then have coll: "collapse_ws t = t"
    by (rule collapse_ws_fixed)
  have "title_base s = [] \<or> \<not> is_space (hd (title_base s))"
    unfolding title_base_def by (rule py_strip_head)
  then have front: "t = [] \<or> \<not> is_space (hd t)"
    using r by (cases t) auto
  have "title_base s = [] \<or> \<not> is_space (last (title_base s))"
    unfolding title_base_def by (rule py_strip_last)
  then have "strip_editions (title_base s) = []
             \<or> \<not> is_space (last (strip_editions (title_base s)))"
    by (rule strip_editions_last)
  then have rear: "t = [] \<or> \<not> is_space (last t)"
    using t by (simp only: normalize_title_compute_eq)
  have strip: "py_strip t = t"
    using front rear by (rule py_strip_fixed)
  have "title_base t = t"
    by (simp only: title_base_def low no_article kept coll strip)
  then show ?thesis
    by (simp only: normalize_title_compute_eq no_edition)
qed

lemma normalize_title_compute_Nil: "normalize_title_compute [] = []"
  by (simp add: normalize_title_compute_def nfkd_def py_lower_def articles_def py_strip_def)

lemma normalize_title_cached:
  assumes "cache_consistent cache"
  shows "fst (normalize_title cache_size cache s) = normalize_title_compute s
         \<and> cache_consistent (snd (normalize_title cache_size cache s))"
proof (cases "s = []")
  case True
  then show ?thesis
    using assms by (simp add: normalize_title_def normalize_title_compute_Nil)
next
  case False
  show ?thesis
  proof (cases "map_of cache s")
    case None
    then show ?thesis
      using assms False by (simp add: normalize_title_def cache_consistent_def Let_def)
  next
    case (Some v)
    then have "(s, v) \<in> set cache"
      by (rule map_of_SomeD)
    then have "v = normalize_title_compute s"
      using assms by (auto simp: cache_consistent_def list_all_iff)
    then show ?thesis
      using assms False Some by (simp add: normalize_title_def)
  qed
qed

text \<open>
  C4, as amended. On ASCII strings, \<open>norm_isbn\<close>, \<open>norm_author\<close> and \<open>norm_date\<close> are
  idempotent: applied to their own result they give it back. \<open>norm_title\<close>, called
  again on its result (with the cache the first call left), gives the result back
  whenever that result begins with none of the articles and ends with no edition marker.
\<close>

theorem normalization_idempotent:
  "ascii_string s \<Longrightarrow>
     normalize_isbn (normalize_isbn s) = normalize_isbn s
     \<and> normalize_author (normalize_author s) = normalize_author s
     \<and> normalize_date (normalize_date s) = normalize_date s
     \<and> (cache_consistent cache
          \<and> strip_article articles (fst (normalize_title cache_size cache s))
              = fst (normalize_title cache_size cache s)
          \<and> strip_editions (fst (normalize_title cache_size cache s))
              = fst (normalize_title cache_size cache s)
        \<longrightarrow> fst (normalize_title cache_size (snd (normalize_title cache_size cache s))
                   (fst (normalize_title cache_size cache s)))
              = fst (normalize_title cache_size cache s))"
proof -
  have title: "fst (normalize_title cache_size (snd (normalize_title cache_size cache s))
                   (fst (normalize_title cache_size cache s)))
              = fst (normalize_title cache_size cache s)"
    if consistent: "cache_consistent cache"
      and no_article: "strip_article articles (fst (normalize_title cache_size cache s))
              = fst (normalize_title cache_size cache s)"
      and no_edition: "strip_editions (fst (normalize_title cache_size cache s))
              = fst (normalize_title cache_size cache s)"
  proof -
    define t where "t = fst (normalize_title cache_size cache s)"
    define cache1 where "cache1 = snd (normalize_title cache_size cache s)"
    have t: "t = normalize_title_compute s" and c1: "cache_consistent cache1"
      using normalize_title_cached [OF consistent, of cache_size s]
      by (simp_all add: t_def cache1_def)
    have "normalize_title_compute t = t"
      using t no_article no_edition unfolding t_def [symmetric]
      by (rule normalize_title_compute_fixed)
    then have "fst (normalize_title cache_size cache1 t) = t"
      using normalize_title_cached [OF c1, of cache_size t] by simp
    then show ?thesis
      by (simp only: t_def cache1_def)
  qed
  show ?thesis
    using title
    by (simp only: normalize_isbn_idem normalize_author_idem normalize_date_idem) blast
qed

text \<open>
  \<open>norm_title\<close> is not idempotent: it removes one leading article in a call, so that
  \<open>The The Book\<close> gives \<open>the book\<close>, which gives \<open>book\<close>.
\<close>

theorem normalize_title_counterexample:
  "fst (normalize_title 10000 [] ''The The Book'') = ''the book''
   \<and> fst (normalize_title 10000 (snd (normalize_title 10000 [] ''The The Book'')) ''the book'')
       = ''book''"
  by code_simp

theorem normalization_idempotent_witness:
  "ascii_string ''Tolkien, J.R.R. 1954''
   \<and> normalize_isbn ''Tolkien, J.R.R. 1954'' = ''TOLKIEN,J.R.R.1954''
   \<and> normalize_isbn ''TOLKIEN,J.R.R.1954'' = ''TOLKIEN,J.R.R.1954''
   \<and> normalize_author ''Tolkien, J.R.R. 1954'' = ''tolkien j.r.r. 1954''
   \<and> normalize_author ''tolkien j.r.r. 1954'' = ''tolkien j.r.r. 1954''
   \<and> normalize_date ''Tolkien, J.R.R. 1954'' = ''1954''
   \<and> normalize_date ''1954'' = ''1954''
   \<and> ascii_string ''The Hobbit, 2nd Edition''
   \<and> fst (normalize_title 10000 [] ''The Hobbit, 2nd Edition'') = ''hobbit''
   \<and> fst (normalize_title 10000 (snd (normalize_title 10000 [] ''The Hobbit, 2nd Edition''))
         ''hobbit'') = ''hobbit''"
proof -
  have a: "ascii_string ''Tolkien, J.R.R. 1954''"
    by code_simp
  have i: "normalize_isbn ''Tolkien, J.R.R. 1954'' = ''TOLKIEN,J.R.R.1954''"
    by code_simp
  have u: "normalize_author ''Tolkien, J.R.R. 1954'' = ''tolkien j.r.r. 1954''"
    by code_simp
  have d: "normalize_date ''Tolkien, J.R.R. 1954'' = ''1954''"
    by code_simp
  have a2: "ascii_string ''The Hobbit, 2nd Edition''"
    by code_simp
  have t: "fst (normalize_title 10000 [] ''The Hobbit, 2nd Edition'') = ''hobbit''"
    by code_simp
  have cc: "cache_consistent []"
    by (simp add: cache_consistent_def)
  have sa: "strip_article articles ''hobbit'' = ''hobbit''"
    by code_simp
  have se: "strip_editions ''hobbit'' = ''hobbit''"
    by code_simp
  have first: "normalize_isbn ''TOLKIEN,J.R.R.1954'' = ''TOLKIEN,J.R.R.1954''
     \<and> normalize_author ''tolkien j.r.r. 1954'' = ''tolkien j.r.r. 1954''
     \<and> normalize_date ''1954'' = ''1954''"
    using normalization_idempotent [OF a] i u d by simp
  have second: "fst (normalize_title 10000 (snd (normalize_title 10000 [] ''The Hobbit, 2nd Edition''))
         ''hobbit'') = ''hobbit''"
    using normalization_idempotent [OF a2, of "[]" 10000] t cc sa se by simp
  show ?thesis
    using a i u d a2 t first second by simp
qed

end
